theory Spec2Isabelle
  imports Main "HOL-Library.Word" "HOL-Library.AList"
begin

section \<open>Python primitives used by the codec\<close>

text \<open>
  The payload is read with \<^verbatim>\<open>list(input_file.read())\<close>: a list of integers in 0..255.
  A byte is an 8-bit word. Bit strings are Python strings over the characters 0 and 1.
\<close>

type_synonym byte = "8 word"

definition bit_char :: "nat \<Rightarrow> char" where
  "bit_char d = (if d = 0 then CHR ''0'' else CHR ''1'')"

text \<open>\<^verbatim>\<open>format(n, 'b')\<close>: the binary digits of \<open>n\<close>, most significant first, \<open>0\<close> for zero.\<close>

function bin_str :: "nat \<Rightarrow> string" where
  "bin_str n = (if n < 2 then [bit_char n] else bin_str (n div 2) @ [bit_char (n mod 2)])"
  by pat_completeness auto
termination
  by (relation "measure (\<lambda>n. n)") auto

declare bin_str.simps [simp del]

text \<open>\<^verbatim>\<open>format(n, f'0{w}b')\<close>: zero-filled on the left up to width \<open>w\<close>, never cut.\<close>

definition format_b :: "nat \<Rightarrow> nat \<Rightarrow> string" where
  "format_b w n = replicate (w - length (bin_str n)) (CHR ''0'') @ bin_str n"

text \<open>
  \<^verbatim>\<open>int(s, 2)\<close> on a string of binary digits; \<open>None\<close> is Python's ValueError (the empty
  string, or a character that is not a binary digit). The codec passes nothing but strings
  of the characters 0 and 1, so signs, prefixes and blanks are not modelled.
\<close>

fun bin_val :: "nat \<Rightarrow> string \<Rightarrow> nat option" where
  "bin_val acc [] = Some acc"
| "bin_val acc (c # cs) =
     (if c = CHR ''0'' then bin_val (2 * acc) cs
      else if c = CHR ''1'' then bin_val (2 * acc + 1) cs
      else None)"

definition int_base2 :: "string \<Rightarrow> nat option" where
  "int_base2 s = (if s = [] then None else bin_val 0 s)"

text \<open>\<^verbatim>\<open>s[a:b]\<close> for \<open>0 \<le> a\<close>, \<open>0 \<le> b\<close>: out-of-range bounds are clipped, as Python does.\<close>

definition py_slice :: "'a list \<Rightarrow> nat \<Rightarrow> nat \<Rightarrow> 'a list" where
  "py_slice s a b = take (b - a) (drop a s)"

text \<open>
  \<^verbatim>\<open>s.find(pat)\<close> and \<^verbatim>\<open>s.rfind(pat)\<close>: the lowest and the highest index at which
  \<open>pat\<close> occurs in \<open>s\<close>, and \<open>-1\<close> when it does not occur.
\<close>

definition occurrences :: "string \<Rightarrow> string \<Rightarrow> nat list" where
  "occurrences pat s =
     filter (\<lambda>i. take (length pat) (drop i s) = pat) [0 ..< Suc (length s) - length pat]"

definition find_str :: "string \<Rightarrow> string \<Rightarrow> int" where
  "find_str s pat = (case occurrences pat s of [] \<Rightarrow> - 1 | i # _ \<Rightarrow> int i)"

definition rfind_str :: "string \<Rightarrow> string \<Rightarrow> int" where
  "rfind_str s pat = (case rev (occurrences pat s) of [] \<Rightarrow> - 1 | i # _ \<Rightarrow> int i)"

text \<open>\<^verbatim>\<open>str(n)\<close> for an integer: decimal digits, with a minus sign when negative.\<close>

definition digit_char :: "nat \<Rightarrow> char" where
  "digit_char d = char_of (48 + d)"

function str_nat :: "nat \<Rightarrow> string" where
  "str_nat n = (if n < 10 then [digit_char n] else str_nat (n div 10) @ [digit_char (n mod 10)])"
  by pat_completeness auto
termination
  by (relation "measure (\<lambda>n. n)") auto

declare str_nat.simps [simp del]

definition py_str :: "int \<Rightarrow> string" where
  "py_str i = (if i < 0 then CHR ''-'' # str_nat (nat (- i)) else str_nat (nat i))"

text \<open>
  \<^verbatim>\<open>int(s)\<close> on a header value: an optional sign followed by one or more decimal digits.
  \<open>None\<close> is Python's ValueError. (Python also accepts surrounding whitespace and
  underscores between digits; the codec never writes such values and they are read as
  an error here.)
\<close>

definition digit_val :: "char \<Rightarrow> nat option" where
  "digit_val c =
     (let v = (of_char c :: nat) in if 48 \<le> v \<and> v \<le> 57 then Some (v - 48) else None)"

fun dec_val :: "nat \<Rightarrow> string \<Rightarrow> nat option" where
  "dec_val acc [] = Some acc"
| "dec_val acc (c # cs) =
     (case digit_val c of None \<Rightarrow> None | Some d \<Rightarrow> dec_val (10 * acc + d) cs)"

definition py_int :: "string \<Rightarrow> int option" where
  "py_int s =
     (case s of
        [] \<Rightarrow> None
      | c # cs \<Rightarrow>
          if c = CHR ''-'' then (if cs = [] then None else map_option (\<lambda>n. - int n) (dec_val 0 cs))
          else if c = CHR ''+'' then (if cs = [] then None else map_option int (dec_val 0 cs))
          else map_option int (dec_val 0 s))"

text \<open>
  \<^verbatim>\<open>floor(log2(n))\<close> for \<open>n \<ge> 1\<close>. The source goes through a float; for the lengths of
  legal-move lists (far below \<open>2^48\<close>) the float result is the exact integer logarithm.
\<close>

function floor_log2 :: "nat \<Rightarrow> nat" where
  "floor_log2 n = (if n < 2 then 0 else Suc (floor_log2 (n div 2)))"
  by pat_completeness auto
termination
  by (relation "measure (\<lambda>n. n)") auto

declare floor_log2.simps [simp del]

section \<open>Frame builder (encode.py, lines 78-84)\<close>

definition START_MARKER :: string where
  "START_MARKER = ''1010''"

definition END_MARKER :: string where
  "END_MARKER = ''0101''"

definition data_bits_of :: "byte list \<Rightarrow> string" where
  "data_bits_of file_bytes = concat (map (\<lambda>b. format_b 8 (unat b)) file_bytes)"

definition padding_needed :: "byte list \<Rightarrow> nat" where
  "padding_needed file_bytes =
     (let total_bits = length START_MARKER + length (data_bits_of file_bytes) + length END_MARKER
      in (8 - (total_bits mod 8)) mod 8)"

definition complete_binary :: "byte list \<Rightarrow> string" where
  "complete_binary file_bytes =
     START_MARKER @ data_bits_of file_bytes
       @ replicate (padding_needed file_bytes) (CHR ''0'') @ END_MARKER"

text \<open>
  The specification's wording of the bit expansion: bit \<open>i\<close> of the eight characters
  written for a byte (counted from the left) is the byte's bit \<open>7 - i\<close>.
\<close>

definition big_endian_bits :: "byte \<Rightarrow> string" where
  "big_endian_bits b = map (\<lambda>i. if bit b (7 - i) then CHR ''1'' else CHR ''0'') [0 ..< 8]"

section \<open>External collaborators\<close>

text \<open>
  The rules engine and the pseudo-random generator are libraries outside the repository;
  the codec is modelled over any implementation of them. A board is created at the
  standard initial position and changed by \<^verbatim>\<open>push\<close> and \<^verbatim>\<open>reset\<close> only, so it is
  represented by its move stack: \<^verbatim>\<open>Board()\<close> and \<^verbatim>\<open>reset()\<close> are the empty list and
  \<^verbatim>\<open>board.push(m)\<close> appends \<open>m\<close>. \<open>Random\<close> is \<^verbatim>\<open>random.Random(seed)\<close>, and
  \<open>shuffle\<close> returns the permuted list together with the advanced generator.
\<close>

record ('m, 'r) world =
  legal_moves :: "'m list \<Rightarrow> 'm list"
  is_game_over :: "'m list \<Rightarrow> bool"
  is_insufficient_material :: "'m list \<Rightarrow> bool"
  can_claim_draw :: "'m list \<Rightarrow> bool"
  uci :: "'m \<Rightarrow> string"
  Random :: "int \<Rightarrow> 'r"
  shuffle :: "'r \<Rightarrow> 'm list \<Rightarrow> 'm list \<times> 'r"

text \<open>A game record as written to and read from the PGN file: its headers and its moves.\<close>

record 'm game =
  headers :: "(string \<times> string) list"
  mainline_moves :: "'m list"

datatype error =
    InputFileMissing
  | InputFileEmpty
  | InvalidMoveIndex
  | PgnMissing
  | PgnEmpty
  | NoGames
  | Expired string
  | InvalidSeed nat
  | InvalidMove nat string
  | StartMarkerNotFound
  | EndMarkerNotFound
  | NoDataBetweenMarkers
  | OutputEmpty
  | PyValueError
  | PyIndexError
  | DecodingFailed error

section \<open>encode.py\<close>

definition read_input_file :: "byte list option \<Rightarrow> error + byte list" where
  "read_input_file input_file =
     (case input_file of
        None \<Rightarrow> Inl InputFileMissing
      | Some file_bytes \<Rightarrow> if file_bytes = [] then Inl InputFileEmpty else Inr file_bytes)"

text \<open>
  The dictionary \<^verbatim>\<open>default_headers\<close> of \<open>create_game_record\<close>; a fresh
  \<^verbatim>\<open>pgn.Game()\<close> carries the same seven headers (the seven tag roster). Headers are
  kept in assignment order; assigning to a key that is present replaces its value in place.
  (The PGN library refuses header names that are not alphanumeric and values with line
  breaks; custom headers of that kind are outside the model.)
\<close>

definition default_headers :: "(string \<times> string) list" where
  "default_headers =
     [(''Event'', ''?''), (''Site'', ''?''), (''Date'', ''????.??.??''), (''Round'', ''?''),
      (''White'', ''?''), (''Black'', ''?''), (''Result'', ''*'')]"

definition create_game_record ::
  "'m list \<Rightarrow> int \<Rightarrow> int option \<Rightarrow> (string \<times> string) list option \<Rightarrow> 'm game" where
  "create_game_record board seed expiry_time custom_headers =
     (let h0 = AList.update ''Seed'' (py_str seed) default_headers;
          dh = (case custom_headers of
                  None \<Rightarrow> default_headers
                | Some ch \<Rightarrow>
                    fold (\<lambda>(key, v) d. if v \<noteq> [] then AList.update key v d else d) ch
                      default_headers);
          h1 = fold (\<lambda>(key, v) h. AList.update key v h) dh h0;
          h2 = (case expiry_time of
                  None \<Rightarrow> h1
                | Some e \<Rightarrow> AList.update ''ExpiryTime'' (py_str e) h1)
      in \<lparr>headers = h2, mainline_moves = board\<rparr>)"

definition should_end_game :: "('m, 'r) world \<Rightarrow> 'm list \<Rightarrow> bool" where
  "should_end_game W board \<longleftrightarrow>
     is_game_over W board \<or> is_insufficient_material W board \<or> can_claim_draw W board
       \<or> length board \<ge> 150"

text \<open>
  The headers passed to \<open>create_game_record\<close>; the source repeats this block at each of
  its three call sites (lines 111-116, 143-149 and 164-170).
\<close>

definition game_headers_of ::
  "(string \<times> string) list option \<Rightarrow> nat \<Rightarrow> (string \<times> string) list option" where
  "game_headers_of custom_headers game_number =
     (if custom_headers \<noteq> None \<and> custom_headers \<noteq> Some [] then
        (let game_headers = the custom_headers
         in if game_number > 1 \<and> map_of game_headers ''Round'' = None
            then Some (AList.update ''Round'' (py_str (int game_number)) game_headers)
            else Some game_headers)
      else if game_number > 1 then Some [(''Round'', py_str (int game_number))] else None)"

text \<open>
  The variables of the encoding loop. \<open>seeds_drawn\<close> counts the calls of
  \<^verbatim>\<open>random.randint(1, 1_000_000)\<close> so far (their results are the stream \<open>seeds\<close>);
  \<open>consumed\<close> is a history variable that records every value taken by the local variable
  \<^verbatim>\<open>bits\<close>, in loop order.
\<close>

record ('m, 'r) enc_state =
  output_pgns :: "'m game list"
  file_bit_index :: nat
  chess_board :: "'m list"
  base_seed :: int
  move_random :: 'r
  game_number :: nat
  seeds_drawn :: nat
  consumed :: "string list"

definition new_game ::
  "('m, 'r) world \<Rightarrow> (nat \<Rightarrow> int) \<Rightarrow> ('m, 'r) enc_state \<Rightarrow> ('m, 'r) enc_state" where
  "new_game W seeds st =
     st\<lparr>chess_board := [],
        base_seed := seeds (seeds_drawn st),
        move_random := Random W (seeds (seeds_drawn st)),
        seeds_drawn := Suc (seeds_drawn st),
        game_number := Suc (game_number st)\<rparr>"

definition append_record ::
  "int option \<Rightarrow> (string \<times> string) list option \<Rightarrow> ('m, 'r) enc_state \<Rightarrow> ('m, 'r) enc_state" where
  "append_record expiry_time custom_headers st =
     st\<lparr>output_pgns := output_pgns st @
          [create_game_record (chess_board st) (base_seed st) expiry_time
             (game_headers_of custom_headers (game_number st))]\<rparr>"

text \<open>Lines 105-123: a position with at most one legal move.\<close>

definition forced_step ::
  "('m, 'r) world \<Rightarrow> (nat \<Rightarrow> int) \<Rightarrow> int option \<Rightarrow> (string \<times> string) list option
     \<Rightarrow> 'm list \<Rightarrow> ('m, 'r) enc_state \<Rightarrow> ('m, 'r) enc_state" where
  "forced_step W seeds expiry_time custom_headers lm st =
     (let st1 = (if lm \<noteq> [] then st\<lparr>chess_board := chess_board st @ [lm ! 0]\<rparr> else st)
      in if length lm = 0 \<or> is_game_over W (chess_board st1)
         then new_game W seeds (append_record expiry_time custom_headers st1)
         else st1)"

text \<open>Lines 135-138: the chosen move is pushed and the bit cursor advanced.\<close>

definition push_chosen ::
  "'m \<Rightarrow> 'r \<Rightarrow> nat \<Rightarrow> string \<Rightarrow> ('m, 'r) enc_state \<Rightarrow> ('m, 'r) enc_state" where
  "push_chosen chosen_move rng bits_to_encode bits st =
     st\<lparr>chess_board := chess_board st @ [chosen_move],
        move_random := rng,
        file_bit_index := file_bit_index st + bits_to_encode,
        consumed := consumed st @ [bits]\<rparr>"

text \<open>Lines 140-158: the game is closed when the rules engine or the ply cap says so.\<close>

definition end_game_check ::
  "('m, 'r) world \<Rightarrow> (nat \<Rightarrow> int) \<Rightarrow> string \<Rightarrow> int option \<Rightarrow> (string \<times> string) list option
     \<Rightarrow> ('m, 'r) enc_state \<Rightarrow> ('m, 'r) enc_state" where
  "end_game_check W seeds cb expiry_time custom_headers st =
     (if should_end_game W (chess_board st)
      then
        (let st2 = append_record expiry_time custom_headers st
         in if file_bit_index st2 < length cb then new_game W seeds st2 else st2)
      else st)"

text \<open>One iteration of the loop at lines 102-158.\<close>

definition encode_iter ::
  "('m, 'r) world \<Rightarrow> (nat \<Rightarrow> int) \<Rightarrow> string \<Rightarrow> int option \<Rightarrow> (string \<times> string) list option
     \<Rightarrow> ('m, 'r) enc_state \<Rightarrow> error + ('m, 'r) enc_state" where
  "encode_iter W seeds cb expiry_time custom_headers st =
     (let lm = legal_moves W (chess_board st) in
      if length lm \<le> 1 then Inr (forced_step W seeds expiry_time custom_headers lm st)
      else
        (let max_bits = floor_log2 (length lm);
             remaining_bits = length cb - file_bit_index st;
             bits_to_encode = min max_bits remaining_bits;
             bits = py_slice cb (file_bit_index st) (file_bit_index st + bits_to_encode)
         in case int_base2 bits of
              None \<Rightarrow> Inl PyValueError
            | Some move_index \<Rightarrow>
                if move_index \<ge> length lm then Inl InvalidMoveIndex
                else
                  (let shuffled = fst (shuffle W (move_random st) lm);
                       rng = snd (shuffle W (move_random st) lm)
                   in if move_index \<ge> length shuffled then Inl PyIndexError
                      else Inr (end_game_check W seeds cb expiry_time custom_headers
                                  (push_chosen (shuffled ! move_index) rng bits_to_encode bits st)))))"

text \<open>
  The loop itself. The rules engine is arbitrary, so the loop need not end (positions
  with no legal move at the start of a game, or an endless chain of forced moves): it is
  run with fuel, and \<open>None\<close> means that the fuel ran out.
\<close>

fun encode_loop ::
  "('m, 'r) world \<Rightarrow> (nat \<Rightarrow> int) \<Rightarrow> string \<Rightarrow> int option \<Rightarrow> (string \<times> string) list option
     \<Rightarrow> nat \<Rightarrow> ('m, 'r) enc_state \<Rightarrow> (error + ('m, 'r) enc_state) option" where
  "encode_loop W seeds cb expiry_time custom_headers 0 st =
     (if file_bit_index st < length cb then None else Some (Inr st))"
| "encode_loop W seeds cb expiry_time custom_headers (Suc fuel) st =
     (if file_bit_index st < length cb then
        (case encode_iter W seeds cb expiry_time custom_headers st of
           Inl e \<Rightarrow> Some (Inl e)
         | Inr st' \<Rightarrow> encode_loop W seeds cb expiry_time custom_headers fuel st')
      else Some (Inr st))"

definition expiry_of :: "int \<Rightarrow> int option \<Rightarrow> int option" where
  "expiry_of now self_destruct_timer =
     (case self_destruct_timer of
        None \<Rightarrow> None
      | Some t \<Rightarrow> if t > 0 then Some (now + t) else None)"

definition initial_state :: "('m, 'r) world \<Rightarrow> (nat \<Rightarrow> int) \<Rightarrow> ('m, 'r) enc_state" where
  "initial_state W seeds =
     \<lparr>output_pgns = [], file_bit_index = 0, chess_board = [], base_seed = seeds 0,
      move_random = Random W (seeds 0), game_number = 1, seeds_drawn = 1, consumed = []\<rparr>"

definition save_final_game ::
  "int option \<Rightarrow> (string \<times> string) list option \<Rightarrow> ('m, 'r) enc_state \<Rightarrow> ('m, 'r) enc_state" where
  "save_final_game expiry_time custom_headers st =
     (if chess_board st \<noteq> [] then append_record expiry_time custom_headers st else st)"

text \<open>
  Lines 75-172: everything up to the list \<open>output_pgns\<close> that is then written to the
  output path. \<open>now\<close> is \<^verbatim>\<open>int(current_time())\<close> at line 89.
\<close>

definition encode_state ::
  "('m, 'r) world \<Rightarrow> (nat \<Rightarrow> int) \<Rightarrow> int \<Rightarrow> nat \<Rightarrow> byte list option \<Rightarrow> int option
     \<Rightarrow> (string \<times> string) list option \<Rightarrow> (error + ('m, 'r) enc_state) option" where
  "encode_state W seeds now fuel input_file self_destruct_timer custom_headers =
     (case read_input_file input_file of
        Inl e \<Rightarrow> Some (Inl e)
      | Inr file_bytes \<Rightarrow>
          (let expiry_time = expiry_of now self_destruct_timer
           in case encode_loop W seeds (complete_binary file_bytes) expiry_time custom_headers
                     fuel (initial_state W seeds) of
                None \<Rightarrow> None
              | Some (Inl e) \<Rightarrow> Some (Inl e)
              | Some (Inr st) \<Rightarrow> Some (Inr (save_final_game expiry_time custom_headers st))))"

text \<open>
  \<open>encode\<close> with its effect on the output path: \<open>out\<close> is the content found there before
  the call (\<open>None\<close>: no such file). The handler at lines 200-202 logs and re-raises.
\<close>

definition encode ::
  "('m, 'r) world \<Rightarrow> (nat \<Rightarrow> int) \<Rightarrow> int \<Rightarrow> nat \<Rightarrow> byte list option \<Rightarrow> 'm game list option
     \<Rightarrow> int option \<Rightarrow> (string \<times> string) list option
     \<Rightarrow> ((error + unit) \<times> 'm game list option) option" where
  "encode W seeds now fuel input_file out self_destruct_timer custom_headers =
     (case encode_state W seeds now fuel input_file self_destruct_timer custom_headers of
        None \<Rightarrow> None
      | Some (Inl e) \<Rightarrow> Some (Inl e, out)
      | Some (Inr st) \<Rightarrow> Some (Inr (), Some (output_pgns st)))"

section \<open>decode.py\<close>

text \<open>
  The PGN file handed to \<open>decode\<close>: absent, blank, or the list of games that
  \<^verbatim>\<open>pgn.read_game\<close> returns (PGN text itself belongs to the external library).
\<close>

datatype 'm pgn_file = NoFile | BlankFile | Parsed "'m game list"

text \<open>Lines 40-46: the elapsed time in the message of the expiry error.\<close>

definition time_msg :: "int \<Rightarrow> string" where
  "time_msg time_diff =
     (if time_diff < 60 then py_str time_diff @ '' seconds''
      else if time_diff < 3600 then py_str (time_diff div 60) @ '' minutes''
      else py_str (time_diff div 3600) @ '' hours'')"

text \<open>
  Lines 35-55. The result is the error raised, if any, and the content of the output path
  afterwards.
\<close>

definition check_expiry ::
  "int \<Rightarrow> 'm game \<Rightarrow> byte list option \<Rightarrow> (error + unit) \<times> byte list option" where
  "check_expiry current_time game0 out =
     (case map_of (headers game0) ''ExpiryTime'' of
        None \<Rightarrow> (Inr (), out)
      | Some s \<Rightarrow>
          (case py_int s of
             None \<Rightarrow> (Inl PyValueError, out)
           | Some expiry_time \<Rightarrow>
               if current_time > expiry_time
               then (Inl (Expired (time_msg (current_time - expiry_time))), None)
               else (Inr (), out)))"

text \<open>\<^verbatim>\<open>xs.index(x)\<close>: the first position of \<open>x\<close>; \<open>None\<close> is Python's ValueError.\<close>

fun index_of :: "'a list \<Rightarrow> 'a \<Rightarrow> nat option" where
  "index_of [] x = None"
| "index_of (y # ys) x = (if y = x then Some 0 else map_option Suc (index_of ys x))"

text \<open>
  One iteration of the loop over the moves of a game (lines 73-93). The state is the
  board, the generator \<^verbatim>\<open>move_random\<close> and the bits collected so far.
\<close>

definition decode_move ::
  "('m, 'r) world \<Rightarrow> nat \<Rightarrow> 'm list \<times> 'r \<times> string \<Rightarrow> 'm \<Rightarrow> error + 'm list \<times> 'r \<times> string" where
  "decode_move W game_index s move =
     (case s of (board, rnd, all_bits) \<Rightarrow>
        (let lm = legal_moves W board in
         if length lm \<le> 1 then Inr (board @ [move], rnd, all_bits)
         else
           (let shuffled = fst (shuffle W rnd lm);
                rng = snd (shuffle W rnd lm)
            in case index_of (map (uci W) shuffled) (uci W move) of
                 None \<Rightarrow> Inl (InvalidMove (game_index + 1) (uci W move))
               | Some move_index \<Rightarrow>
                   (let max_bits = floor_log2 (length shuffled)
                    in if max_bits > 0
                       then Inr (board @ [move], rng, all_bits @ format_b max_bits move_index)
                       else Inr (board @ [move], rng, all_bits)))))"

fun decode_moves ::
  "('m, 'r) world \<Rightarrow> nat \<Rightarrow> 'm list \<times> 'r \<times> string \<Rightarrow> 'm list \<Rightarrow> error + 'm list \<times> 'r \<times> string" where
  "decode_moves W game_index s [] = Inr s"
| "decode_moves W game_index s (move # moves) =
     (case decode_move W game_index s move of
        Inl e \<Rightarrow> Inl e
      | Inr s' \<Rightarrow> decode_moves W game_index s' moves)"

text \<open>Lines 66-70: the generator and the board a game is replayed with.\<close>

definition seed_header :: "'m game \<Rightarrow> string" where
  "seed_header g = (case map_of (headers g) ''Seed'' of None \<Rightarrow> ''1'' | Some s \<Rightarrow> s)"

text \<open>The loop over the games (lines 64-93), from game number \<open>game_index\<close> on.\<close>

fun decode_games ::
  "('m, 'r) world \<Rightarrow> nat \<Rightarrow> string \<Rightarrow> 'm game list \<Rightarrow> error + string" where
  "decode_games W game_index all_bits [] = Inr all_bits"
| "decode_games W game_index all_bits (g # gs) =
     (case py_int (seed_header g) of
        None \<Rightarrow> Inl (InvalidSeed (game_index + 1))
      | Some seed \<Rightarrow>
          (case decode_moves W game_index ([], Random W seed, all_bits) (mainline_moves g) of
             Inl e \<Rightarrow> Inl e
           | Inr s \<Rightarrow> decode_games W (Suc game_index) (snd (snd s)) gs))"

text \<open>Lines 98-129: the frame parser, from the extracted bits to the data bits.\<close>

definition parse_frame :: "string \<Rightarrow> error + string" where
  "parse_frame all_bits =
     (let start_index = find_str all_bits START_MARKER in
      if start_index = - 1 then Inl StartMarkerNotFound
      else
        (let end_index = rfind_str all_bits END_MARKER;
             data_start = start_index + int (length START_MARKER)
         in if end_index = - 1 \<or> end_index \<le> data_start then Inl EndMarkerNotFound
            else
              (let data_bits = py_slice all_bits (nat data_start) (nat end_index);
                   data_bits' =
                     (if length data_bits mod 8 \<noteq> 0
                      then take (length data_bits - length data_bits mod 8) data_bits
                      else data_bits)
               in if length data_bits' = 0 then Inl NoDataBetweenMarkers else Inr data_bits')))"

text \<open>Lines 132-137: the bytes written to the output file.\<close>

function write_bytes :: "string \<Rightarrow> error + byte list" where
  "write_bytes data_bits =
     (if data_bits = [] then Inr []
      else
        (let byte_bits = take 8 data_bits in
         if length byte_bits = 8 then
           (case int_base2 byte_bits of
              None \<Rightarrow> Inl PyValueError
            | Some byte_value \<Rightarrow>
                (case write_bytes (drop 8 data_bits) of
                   Inl e \<Rightarrow> Inl e
                 | Inr bs \<Rightarrow> Inr (of_nat byte_value # bs)))
         else write_bytes (drop 8 data_bits)))"
  by pat_completeness auto
termination
  by (relation "measure length") auto

declare write_bytes.simps [simp del]

text \<open>
  Lines 57-147: what \<open>decode\<close> does once the expiry check has passed. The output file
  is removed first and written last; after the write it exists, so the check of lines
  140-141 cannot fail. (A failure while writing would leave a partial file for the handler
  to remove; the result then already shows no file.)
\<close>

definition decode_after_expiry ::
  "('m, 'r) world \<Rightarrow> 'm game list \<Rightarrow> (error + unit) \<times> byte list option" where
  "decode_after_expiry W games =
     (case decode_games W 0 [] games of
        Inl e \<Rightarrow> (Inl e, None)
      | Inr all_bits \<Rightarrow>
          (case parse_frame all_bits of
             Inl e \<Rightarrow> (Inl e, None)
           | Inr data_bits \<Rightarrow>
               (case write_bytes data_bits of
                  Inl e \<Rightarrow> (Inl e, None)
                | Inr bs \<Rightarrow> if length bs = 0 then (Inl OutputEmpty, Some bs) else (Inr (), Some bs))))"

text \<open>The body of the \<^verbatim>\<open>try\<close> block (lines 11-147).\<close>

definition decode_body ::
  "('m, 'r) world \<Rightarrow> int \<Rightarrow> 'm pgn_file \<Rightarrow> byte list option \<Rightarrow> (error + unit) \<times> byte list option" where
  "decode_body W current_time pgn out =
     (case pgn of
        NoFile \<Rightarrow> (Inl PgnMissing, out)
      | BlankFile \<Rightarrow> (Inl PgnEmpty, out)
      | Parsed games \<Rightarrow>
          (case games of
             [] \<Rightarrow> (Inl NoGames, out)
           | game0 # _ \<Rightarrow>
               (case check_expiry current_time game0 out of
                  (Inl e, out') \<Rightarrow> (Inl e, out')
                | (Inr _, _) \<Rightarrow> decode_after_expiry W games)))"

text \<open>
  \<open>decode\<close>: the body under the handler of lines 149-152, which removes the output file
  and raises "Decoding failed". \<open>out\<close> is the content of the output path before the call.
\<close>

definition decode ::
  "('m, 'r) world \<Rightarrow> int \<Rightarrow> 'm pgn_file \<Rightarrow> byte list option \<Rightarrow> (error + unit) \<times> byte list option" where
  "decode W current_time pgn out =
     (case decode_body W current_time pgn out of
        (Inl e, _) \<Rightarrow> (Inl (DecodingFailed e), None)
      | (Inr u, out') \<Rightarrow> (Inr u, out'))"

section \<open>Small rules engines for running the codec on concrete inputs\<close>

text \<open>
  Moves are numbers. Every position of \<open>octal_world\<close> has the eight legal moves 0..7 (three
  bits per move) and no game ever ends before the cap of 150 plies; the generator is a
  counter and a shuffle rotates the list by the counter.
\<close>

definition rotate_shuffle :: "nat \<Rightarrow> nat list \<Rightarrow> nat list \<times> nat" where
  "rotate_shuffle r xs = (rotate r xs, Suc r)"

definition octal_world :: "(nat, nat) world" where
  "octal_world =
     \<lparr>legal_moves = (\<lambda>board. [0, 1, 2, 3, 4, 5, 6, 7]),
      is_game_over = (\<lambda>board. False),
      is_insufficient_material = (\<lambda>board. False),
      can_claim_draw = (\<lambda>board. False),
      uci = (\<lambda>m. str_nat m),
      Random = (\<lambda>seed. nat seed),
      shuffle = rotate_shuffle\<rparr>"

text \<open>
  Every position of \<open>short_game_world\<close> has sixteen legal moves (four bits per move) and
  the engine reports the game over after four plies.
\<close>

definition short_game_world :: "(nat, nat) world" where
  "short_game_world =
     \<lparr>legal_moves = (\<lambda>board. [0, 1, 2, 3, 4, 5, 6, 7, 8, 9, 10, 11, 12, 13, 14, 15]),
      is_game_over = (\<lambda>board. 4 \<le> length board),
      is_insufficient_material = (\<lambda>board. False),
      can_claim_draw = (\<lambda>board. False),
      uci = (\<lambda>m. str_nat m),
      Random = (\<lambda>seed. nat seed),
      shuffle = rotate_shuffle\<rparr>"

text \<open>
  In \<open>corridor_world\<close> every second position is forced: after an odd number of plies the
  only legal move is 9, otherwise there are four legal moves (two bits per move).
\<close>

definition corridor_world :: "(nat, nat) world" where
  "corridor_world =
     \<lparr>legal_moves = (\<lambda>board. if odd (length board) then [9] else [0, 1, 2, 3]),
      is_game_over = (\<lambda>board. False),
      is_insufficient_material = (\<lambda>board. False),
      can_claim_draw = (\<lambda>board. False),
      uci = (\<lambda>m. str_nat m),
      Random = (\<lambda>seed. nat seed),
      shuffle = rotate_shuffle\<rparr>"

section \<open>Notions used to state the properties\<close>

text \<open>A bit string: every character is 0 or 1.\<close>

definition binary :: "string \<Rightarrow> bool" where
  "binary s \<longleftrightarrow> set s \<subseteq> {CHR ''0'', CHR ''1''}"

text \<open>
  The pattern \<open>pat\<close> occurs in \<open>s\<close> at index \<open>i\<close>; the first and the last occurrence.
\<close>

definition occurs_at :: "string \<Rightarrow> string \<Rightarrow> nat \<Rightarrow> bool" where
  "occurs_at pat s i \<longleftrightarrow> i + length pat \<le> length s \<and> take (length pat) (drop i s) = pat"

definition first_occurrence :: "string \<Rightarrow> string \<Rightarrow> nat \<Rightarrow> bool" where
  "first_occurrence pat s i \<longleftrightarrow> occurs_at pat s i \<and> (\<forall>j. occurs_at pat s j \<longrightarrow> i \<le> j)"

definition last_occurrence :: "string \<Rightarrow> string \<Rightarrow> nat \<Rightarrow> bool" where
  "last_occurrence pat s i \<longleftrightarrow> occurs_at pat s i \<and> (\<forall>j. occurs_at pat s j \<longrightarrow> j \<le> i)"

text \<open>
  The unsigned integer written by a bit string, first character most significant.
\<close>

definition big_endian_value :: "string \<Rightarrow> nat" where
  "big_endian_value bs =
     (\<Sum>j < length bs. if bs ! j = CHR ''1'' then 2 ^ (length bs - 1 - j) else 0)"

text \<open>
  The bit cursor and the slices taken so far: the slices, in order, are exactly the bits
  before the cursor.
\<close>

definition cursor_inv :: "string \<Rightarrow> ('m, 'r) enc_state \<Rightarrow> bool" where
  "cursor_inv cb st \<longleftrightarrow>
     file_bit_index st \<le> length cb \<and> concat (consumed st) = take (file_bit_index st) cb"




text \<open>
  The local variables of an encoding iteration at a state: \<^verbatim>\<open>max_bits\<close>,
  \<^verbatim>\<open>bits_to_encode\<close>, \<^verbatim>\<open>bits\<close>, the shuffled list of legal moves and the generator
  after the shuffle.
\<close>

definition max_bits_at :: "('m, 'r) world \<Rightarrow> ('m, 'r) enc_state \<Rightarrow> nat" where
  "max_bits_at W st = floor_log2 (length (legal_moves W (chess_board st)))"

definition bits_to_encode_at :: "('m, 'r) world \<Rightarrow> string \<Rightarrow> ('m, 'r) enc_state \<Rightarrow> nat" where
  "bits_to_encode_at W cb st = min (max_bits_at W st) (length cb - file_bit_index st)"

definition bits_at :: "('m, 'r) world \<Rightarrow> string \<Rightarrow> ('m, 'r) enc_state \<Rightarrow> string" where
  "bits_at W cb st =
     py_slice cb (file_bit_index st) (file_bit_index st + bits_to_encode_at W cb st)"

definition shuffled_at :: "('m, 'r) world \<Rightarrow> ('m, 'r) enc_state \<Rightarrow> 'm list" where
  "shuffled_at W st = fst (shuffle W (move_random st) (legal_moves W (chess_board st)))"

definition advanced_at :: "('m, 'r) world \<Rightarrow> ('m, 'r) enc_state \<Rightarrow> 'r" where
  "advanced_at W st = snd (shuffle W (move_random st) (legal_moves W (chess_board st)))"

text \<open>
  What the round trip needs from the collaborators: a shuffle keeps the length of the list,
  and the legal moves of a position have distinct UCI strings.
\<close>

definition collaborators_ok :: "('m, 'r) world \<Rightarrow> bool" where
  "collaborators_ok W \<longleftrightarrow>
     (\<forall>r board. length (fst (shuffle W r (legal_moves W board))) = length (legal_moves W board)
        \<and> distinct (map (uci W) (fst (shuffle W r (legal_moves W board)))))"

text \<open>
  The decoder is in step with an encoder state: replaying the games written so far and
  then the moves on the board succeeds, arrives at the encoder's board and generator, and
  has extracted exactly the bits before the cursor.
\<close>

definition in_step :: "('m, 'r) world \<Rightarrow> string \<Rightarrow> ('m, 'r) enc_state \<Rightarrow> bool" where
  "in_step W cb st \<longleftrightarrow>
     (\<exists>pre. decode_games W 0 [] (output_pgns st) = Inr pre
        \<and> decode_moves W (length (output_pgns st)) ([], Random W (base_seed st), pre)
             (chess_board st)
           = Inr (chess_board st, move_random st, take (file_bit_index st) cb))"

text \<open>
  The loop invariant behind the round trip: while bits remain the decoder is in step; once
  the cursor has reached the end, the state is one iteration away from a state in step.
\<close>

definition replay_inv ::
  "('m, 'r) world \<Rightarrow> (nat \<Rightarrow> int) \<Rightarrow> string \<Rightarrow> int option \<Rightarrow> (string \<times> string) list option
     \<Rightarrow> ('m, 'r) enc_state \<Rightarrow> bool" where
  "replay_inv W seeds cb e c st \<longleftrightarrow>
     cursor_inv cb st
     \<and> (file_bit_index st < length cb \<longrightarrow> in_step W cb st)
     \<and> (file_bit_index st = length cb \<longrightarrow>
          (\<exists>st0. in_step W cb st0 \<and> file_bit_index st0 < length cb
              \<and> 2 \<le> length (legal_moves W (chess_board st0))
              \<and> encode_iter W seeds cb e c st0 = Inr st))"

section \<open>Facts about the primitives\<close>

lemma bin_str_nonempty: "bin_str n \<noteq> []"
  by (subst bin_str.simps) simp

lemma format_b_one: "n < 2 \<Longrightarrow> format_b (Suc w) n = replicate w (CHR ''0'') @ [bit_char n]"
  by (simp add: format_b_def bin_str.simps [of n])

lemma format_b_zero: "format_b (Suc w) 0 = replicate (Suc w) (CHR ''0'')"
  by (simp add: format_b_one bit_char_def replicate_append_same)

lemma format_b_Suc:
  "0 < w \<Longrightarrow> format_b (Suc w) n = format_b w (n div 2) @ [bit_char (n mod 2)]"
proof (cases "n < 2")
  case True
  assume w: "0 < w"
  then obtain v where v: "w = Suc v" by (cases w) auto
  from True have d: "n div 2 = 0" by simp
  from True have m: "n mod 2 = n" by simp
  show ?thesis
    unfolding d m format_b_one [OF True] unfolding v format_b_zero by simp
next
  case False
  then have "bin_str n = bin_str (n div 2) @ [bit_char (n mod 2)]"
    by (subst bin_str.simps) simp
  then show ?thesis by (simp add: format_b_def Suc_diff_le)
qed

lemma bin_val_snoc:
  "bin_val acc (bs @ [c]) =
     (case bin_val acc bs of
        None \<Rightarrow> None
      | Some v \<Rightarrow>
          if c = CHR ''0'' then Some (2 * v) else if c = CHR ''1'' then Some (2 * v + 1) else None)"
  by (induction bs arbitrary: acc) auto

lemma bin_val_binary: "binary bs \<Longrightarrow> \<exists>v. bin_val acc bs = Some v"
  by (induction bs arbitrary: acc) (auto simp: binary_def)

lemma bin_val_bound: "bin_val 0 bs = Some v \<Longrightarrow> v < 2 ^ length bs"
proof (induction bs arbitrary: v rule: rev_induct)
  case Nil
  then show ?case by simp
next
  case (snoc c bs)
  then show ?case
    by (auto simp: bin_val_snoc split: option.splits if_splits)
qed

text \<open>Writing the value of a bit string back with a width: the string, zero-filled.\<close>

lemma format_b_bin_val:
  "bs \<noteq> [] \<Longrightarrow> bin_val 0 bs = Some v \<Longrightarrow> length bs \<le> w \<Longrightarrow>
     format_b w v = replicate (w - length bs) (CHR ''0'') @ bs"
proof (induction bs arbitrary: v w rule: rev_induct)
  case Nil
  then show ?case by simp
next
  case (snoc c bs)
  from snoc.prems(3) obtain w' where w: "w = Suc w'" and len: "length bs \<le> w'"
    by (cases w) auto
  from snoc.prems(2) obtain u where u: "bin_val 0 bs = Some u"
    by (auto simp: bin_val_snoc split: option.splits)
  from snoc.prems(2) u have c: "c = CHR ''0'' \<or> c = CHR ''1''"
    by (auto simp: bin_val_snoc split: if_splits)
  from snoc.prems(2) u have v: "v = 2 * u + (if c = CHR ''0'' then 0 else 1)"
    by (auto simp: bin_val_snoc split: if_splits)
  have bc: "bit_char (v mod 2) = c" using c v by (auto simp: bit_char_def)
  have vd: "v div 2 = u" using v by auto
  show ?case
  proof (cases "bs = []")
    case True
    with u have "u = 0" by simp
    with v c have "v < 2" by auto
    then show ?thesis using True w bc format_b_one [of v w'] by simp
  next
    case False
    with len have "0 < w'" by (cases w') auto
    then have "format_b w v = format_b w' u @ [c]"
      using format_b_Suc [of w' v] w bc vd by simp
    also have "format_b w' u = replicate (w' - length bs) (CHR ''0'') @ bs"
      using snoc.IH [OF False u len] .
    finally show ?thesis using w by simp
  qed
qed

lemma floor_log2_pow: "0 < n \<Longrightarrow> 2 ^ floor_log2 n \<le> n"
proof (induction n rule: floor_log2.induct)
  case (1 n)
  show ?case
  proof (cases "n < 2")
    case True
    with 1 show ?thesis by (subst floor_log2.simps) simp
  next
    case False
    then have "0 < n div 2" by simp
    with 1 False have "2 ^ floor_log2 (n div 2) \<le> n div 2" by simp
    then have "2 * 2 ^ floor_log2 (n div 2) \<le> n" by simp
    with False show ?thesis by (subst floor_log2.simps) simp
  qed
qed

lemma floor_log2_upper: "n < 2 ^ Suc (floor_log2 n)"
proof (induction n rule: floor_log2.induct)
  case (1 n)
  show ?case
  proof (cases "n < 2")
    case True
    then show ?thesis by (subst floor_log2.simps) simp
  next
    case False
    with 1 have "n div 2 < 2 ^ Suc (floor_log2 (n div 2))" by simp
    then have "n < 2 * 2 ^ Suc (floor_log2 (n div 2))" by simp
    with False show ?thesis by (subst floor_log2.simps) simp
  qed
qed

lemma floor_log2_pos: "2 \<le> n \<Longrightarrow> 0 < floor_log2 n"
  by (subst floor_log2.simps) simp

text \<open>The characters written by \<open>format_b\<close> are the bits of the number, highest first.\<close>

lemma format_b_bits:
  "0 < w \<Longrightarrow> n < 2 ^ w \<Longrightarrow>
     format_b w n = map (\<lambda>i. if bit n (w - 1 - i) then CHR ''1'' else CHR ''0'') [0 ..< w]"
proof (induction w arbitrary: n)
  case 0
  then show ?case by simp
next
  case (Suc w)
  show ?case
  proof (cases "w = 0")
    case True
    with Suc.prems have "n < 2" by simp
    then have "n = 0 \<or> n = 1" by auto
    then show ?thesis using True format_b_one [of n 0] by (auto simp: bit_char_def bit_0)
  next
    case False
    then have w: "0 < w" by simp
    from Suc.prems have "n div 2 < 2 ^ w" by auto
    from Suc.IH [OF w this]
    have IH: "format_b w (n div 2) =
        map (\<lambda>i. if bit (n div 2) (w - 1 - i) then CHR ''1'' else CHR ''0'') [0 ..< w]" .
    have eq: "map (\<lambda>i. if bit (n div 2) (w - 1 - i) then CHR ''1'' else CHR ''0'') [0 ..< w]
            = map (\<lambda>i. if bit n (Suc w - 1 - i) then CHR ''1'' else CHR ''0'') [0 ..< w]"
    proof (rule map_cong [OF refl])
      fix i assume "i \<in> set [0 ..< w]"
      then have "i < w" by simp
      then have "Suc w - 1 - i = Suc (w - 1 - i)" by simp
      then show "(if bit (n div 2) (w - 1 - i) then CHR ''1'' else CHR ''0'')
               = (if bit n (Suc w - 1 - i) then CHR ''1'' else CHR ''0'')"
        by (simp add: bit_Suc)
    qed
    have last: "bit_char (n mod 2) = (if bit n (Suc w - 1 - w) then CHR ''1'' else CHR ''0'')"
      by (auto simp: bit_char_def bit_0 odd_iff_mod_2_eq_one)
    show ?thesis
      unfolding format_b_Suc [OF w] IH eq last by simp
  qed
qed

lemma format_byte: "format_b 8 (unat (b :: byte)) = big_endian_bits b"
proof -
  have "unat b < 2 ^ 8" using unsigned_less [of b] by simp
  then have "format_b 8 (unat b) =
      map (\<lambda>i. if bit (unat b) (8 - 1 - i) then CHR ''1'' else CHR ''0'') [0 ..< 8]"
    by (intro format_b_bits) simp_all
  also have "\<dots> = big_endian_bits b"
    unfolding big_endian_bits_def
    by (rule map_cong [OF refl]) (simp add: bit_unsigned_iff)
  finally show ?thesis .
qed

lemma length_big_endian_bits: "length (big_endian_bits b) = 8"
  by (simp add: big_endian_bits_def)

lemma data_bits_of_eq: "data_bits_of p = concat (map big_endian_bits p)"
  by (simp add: data_bits_of_def format_byte)

lemma length_data_bits_of: "length (data_bits_of p) = 8 * length p"
  by (induction p) (simp_all add: data_bits_of_eq length_big_endian_bits)

lemma padding_needed_zero: "padding_needed p = 0"
  by (simp add: padding_needed_def START_MARKER_def END_MARKER_def length_data_bits_of Let_def)

lemma length_complete_binary: "length (complete_binary p) = 8 * length p + 8"
  by (simp add: complete_binary_def padding_needed_zero START_MARKER_def END_MARKER_def
      length_data_bits_of)

lemma binary_big_endian_bits: "binary (big_endian_bits b)"
  by (auto simp: binary_def big_endian_bits_def)

lemma binary_data_bits_of: "binary (data_bits_of p)"
  using binary_big_endian_bits by (induction p) (auto simp: data_bits_of_eq binary_def)

lemma binary_complete_binary: "binary (complete_binary p)"
  using binary_data_bits_of [of p]
  by (auto simp: complete_binary_def binary_def START_MARKER_def END_MARKER_def)

text \<open>\<open>find\<close> and \<open>rfind\<close> return the first and the last occurrence.\<close>

lemma occurrences_iff: "i \<in> set (occurrences pat s) \<longleftrightarrow> occurs_at pat s i"
  by (auto simp: occurrences_def occurs_at_def)

lemma sorted_occurrences: "sorted (occurrences pat s)"
  by (simp add: occurrences_def sorted_wrt_filter)

lemma occurrences_empty: "occurrences pat s = [] \<longleftrightarrow> (\<forall>i. \<not> occurs_at pat s i)"
proof
  assume "occurrences pat s = []"
  then show "\<forall>i. \<not> occurs_at pat s i" using occurrences_iff [of _ pat s] by simp
next
  assume a: "\<forall>i. \<not> occurs_at pat s i"
  show "occurrences pat s = []"
  proof (cases "occurrences pat s")
    case Nil
    then show ?thesis .
  next
    case (Cons x xs)
    then have "occurs_at pat s x" using occurrences_iff [of x pat s] by simp
    with a show ?thesis by simp
  qed
qed

lemma find_str_none: "find_str s pat = - 1 \<longleftrightarrow> (\<forall>i. \<not> occurs_at pat s i)"
  using occurrences_empty [of pat s] by (auto simp: find_str_def split: list.splits)

lemma rfind_str_none: "rfind_str s pat = - 1 \<longleftrightarrow> (\<forall>i. \<not> occurs_at pat s i)"
  using occurrences_empty [of pat s] by (auto simp: rfind_str_def split: list.splits)

lemma find_str_first: "first_occurrence pat s a \<Longrightarrow> find_str s pat = int a"
proof -
  assume f: "first_occurrence pat s a"
  then have mem: "a \<in> set (occurrences pat s)"
    by (simp add: first_occurrence_def occurrences_iff)
  then obtain x xs where xs: "occurrences pat s = x # xs" by (cases "occurrences pat s") auto
  have "x \<le> a" using sorted_occurrences [of pat s] mem xs by auto
  moreover have "occurs_at pat s x" using occurrences_iff [of x pat s] xs by simp
  then have "a \<le> x" using f by (simp add: first_occurrence_def)
  ultimately show ?thesis by (simp add: find_str_def xs)
qed

lemma rfind_str_last: "last_occurrence pat s e \<Longrightarrow> rfind_str s pat = int e"
proof -
  assume l: "last_occurrence pat s e"
  then have mem: "e \<in> set (occurrences pat s)"
    by (simp add: last_occurrence_def occurrences_iff)
  then obtain x xs where xs: "rev (occurrences pat s) = x # xs"
    by (cases "rev (occurrences pat s)") auto
  then have o: "occurrences pat s = rev xs @ [x]" by (metis rev_rev_ident rev.simps(2))
  have "e \<le> x" using sorted_occurrences [of pat s] mem unfolding o
    by (auto simp: sorted_append)
  moreover have "occurs_at pat s x" using occurrences_iff [of x pat s] o by simp
  then have "x \<le> e" using l by (simp add: last_occurrence_def)
  ultimately show ?thesis by (simp add: rfind_str_def xs)
qed

lemma sorted_le_last: "sorted xs \<Longrightarrow> (x :: nat) \<in> set xs \<Longrightarrow> x \<le> last xs"
  by (induction xs) auto

lemma rfind_str_exists:
  "occurs_at pat s j \<Longrightarrow> \<exists>e. last_occurrence pat s e \<and> rfind_str s pat = int e"
proof -
  assume "occurs_at pat s j"
  then have ne: "occurrences pat s \<noteq> []" using occurrences_iff [of j pat s] by auto
  let ?e = "last (occurrences pat s)"
  have 1: "occurs_at pat s ?e" using ne occurrences_iff [of ?e pat s] by simp
  have 2: "\<forall>k. occurs_at pat s k \<longrightarrow> k \<le> ?e"
    using sorted_le_last [OF sorted_occurrences] by (simp add: occurrences_iff)
  have "last_occurrence pat s ?e" using 1 2 by (simp add: last_occurrence_def)
  then show ?thesis using rfind_str_last by blast
qed

text \<open>\<open>int(s, 2)\<close> reads a bit string as a big-endian number; \<open>int\<close> undoes \<open>str\<close>.\<close>

lemma big_endian_value_snoc:
  "big_endian_value (bs @ [c]) = 2 * big_endian_value bs + (if c = CHR ''1'' then 1 else 0)"
proof -
  have "(\<Sum>j < length bs. if (bs @ [c]) ! j = CHR ''1'' then 2 ^ (length (bs @ [c]) - 1 - j) else 0)
      = (\<Sum>j < length bs. 2 * (if bs ! j = CHR ''1'' then 2 ^ (length bs - 1 - j) else (0::nat)))"
  proof (rule sum.cong [OF refl])
    fix j assume "j \<in> {..< length bs}"
    then have j: "j < length bs" by simp
    then have "length (bs @ [c]) - 1 - j = Suc (length bs - 1 - j)" by simp
    then show "(if (bs @ [c]) ! j = CHR ''1'' then 2 ^ (length (bs @ [c]) - 1 - j) else 0)
        = 2 * (if bs ! j = CHR ''1'' then 2 ^ (length bs - 1 - j) else (0::nat))"
      using j by (simp add: nth_append)
  qed
  then show ?thesis
    by (simp add: big_endian_value_def sum_distrib_left)
qed

lemma bin_val_big_endian: "binary bs \<Longrightarrow> bin_val 0 bs = Some (big_endian_value bs)"
proof (induction bs rule: rev_induct)
  case Nil
  then show ?case by (simp add: big_endian_value_def)
next
  case (snoc c bs)
  then have "binary bs" and "c = CHR ''0'' \<or> c = CHR ''1''" by (auto simp: binary_def)
  with snoc.IH show ?case
    by (auto simp: bin_val_snoc big_endian_value_snoc)
qed

lemma digit_val_digit_char: "d < 10 \<Longrightarrow> digit_val (digit_char d) = Some d"
  by (simp add: digit_val_def digit_char_def Let_def)

lemma dec_val_snoc:
  "dec_val acc (cs @ [c]) =
     (case dec_val acc cs of
        None \<Rightarrow> None
      | Some v \<Rightarrow> (case digit_val c of None \<Rightarrow> None | Some d \<Rightarrow> Some (10 * v + d)))"
  by (induction cs arbitrary: acc) (auto split: option.splits)

lemma dec_val_str_nat: "dec_val 0 (str_nat n) = Some n"
proof (induction n rule: str_nat.induct)
  case (1 n)
  show ?case
  proof (cases "n < 10")
    case True
    then show ?thesis by (subst str_nat.simps) (simp add: digit_val_digit_char)
  next
    case False
    with 1 have "dec_val 0 (str_nat (n div 10)) = Some (n div 10)" by simp
    then show ?thesis using False
      by (subst str_nat.simps) (simp add: dec_val_snoc digit_val_digit_char)
  qed
qed

lemma str_nat_nonempty: "str_nat n \<noteq> []"
  by (subst str_nat.simps) simp

lemma str_nat_digits: "c \<in> set (str_nat n) \<Longrightarrow> \<exists>d < 10. c = digit_char d"
proof (induction n rule: str_nat.induct)
  case (1 n)
  show ?case
  proof (cases "n < 10")
    case True
    with "1.prems" show ?thesis by (subst (asm) str_nat.simps) auto
  next
    case False
    from "1.prems" False have "c \<in> set (str_nat (n div 10)) \<or> c = digit_char (n mod 10)"
      by (subst (asm) str_nat.simps) auto
    then show ?thesis
    proof
      assume "c \<in> set (str_nat (n div 10))"
      with 1 False show ?thesis by simp
    next
      assume "c = digit_char (n mod 10)"
      moreover have "n mod 10 < 10" by simp
      ultimately show ?thesis by blast
    qed
  qed
qed

lemma digit_char_not_sign: "d < 10 \<Longrightarrow> digit_char d \<noteq> CHR ''-'' \<and> digit_char d \<noteq> CHR ''+''"
proof -
  assume d: "d < 10"
  have v: "of_char (digit_char d) = (48 + d :: nat)" using d by (simp add: digit_char_def)
  have "of_char (digit_char d) \<noteq> (of_char (CHR ''-'') :: nat)"
    unfolding v by simp
  moreover have "of_char (digit_char d) \<noteq> (of_char (CHR ''+'') :: nat)"
    unfolding v by simp
  ultimately show ?thesis by metis
qed

lemma py_int_str_nat: "py_int (str_nat n) = Some (int n)"
proof -
  obtain c cs where s: "str_nat n = c # cs" using str_nat_nonempty [of n] by (cases "str_nat n") auto
  then have "c \<in> set (str_nat n)" by simp
  then obtain d where "d < 10" "c = digit_char d" using str_nat_digits by blast
  then have "c \<noteq> CHR ''-''" "c \<noteq> CHR ''+''" using digit_char_not_sign by auto
  then show ?thesis using s dec_val_str_nat [of n] by (simp add: py_int_def)
qed

lemma py_int_py_str: "py_int (py_str i) = Some i"
proof (cases "i < 0")
  case True
  then show ?thesis
    using dec_val_str_nat [of "nat (- i)"] str_nat_nonempty [of "nat (- i)"]
    by (simp add: py_int_def py_str_def)
next
  case False
  then show ?thesis using py_int_str_nat [of "nat i"] by (simp add: py_str_def)
qed

section \<open>The frame\<close>

text \<open>
  Claim C2. For every payload, the wrapped bit stream built by \<open>encode\<close> is the start marker
  1010, then the eight bits of every payload byte, highest bit first and in payload order,
  then the padding zeros, then the end marker 0101; the number of padding zeros is the least
  number that makes the total length a multiple of 8, and the total length is a multiple
  of 8.
\<close>

theorem frame_layout:
  "complete_binary payload =
      ''1010'' @ concat (map big_endian_bits payload)
        @ replicate (padding_needed payload) (CHR ''0'') @ ''0101''
   \<and> padding_needed payload = (LEAST k. (4 + 8 * length payload + k + 4) mod 8 = 0)
   \<and> length (complete_binary payload) mod 8 = 0"
proof -
  have "(LEAST k. (4 + 8 * length payload + k + 4) mod 8 = 0) = (0 :: nat)"
    by (rule Least_equality) simp_all
  moreover have "complete_binary payload =
      ''1010'' @ concat (map big_endian_bits payload)
        @ replicate (padding_needed payload) (CHR ''0'') @ ''0101''"
    by (simp add: complete_binary_def data_bits_of_eq START_MARKER_def END_MARKER_def)
  moreover have "length (complete_binary payload) mod 8 = 0"
    by (simp add: length_complete_binary)
  ultimately show ?thesis by (simp add: padding_needed_zero)
qed

theorem frame_layout_witness:
  "complete_binary [0x41, 0xF0] = ''101001000001111100000101''
   \<and> padding_needed [0x41, 0xF0] = 0 \<and> length (complete_binary [0x41, 0xF0]) = 24"
proof -
  have b: "concat (map big_endian_bits [0x41, 0xF0 :: byte]) = ''0100000111110000''"
    by code_simp
  have p: "padding_needed [0x41, 0xF0] = 0"
    by code_simp
  show ?thesis
    using frame_layout [of "[0x41, 0xF0]"] b p by (simp add: length_big_endian_bits)
qed

lemma parse_frame_between:
  assumes "first_occurrence START_MARKER s a" and "last_occurrence END_MARKER s e"
    and "a + 4 < e"
  shows "parse_frame s =
            (if (e - (a + 4)) div 8 = 0 then Inl NoDataBetweenMarkers
             else Inr (take (8 * ((e - (a + 4)) div 8)) (drop (a + 4) s)))"
proof -
  from assms have h: "first_occurrence START_MARKER s a \<and> last_occurrence END_MARKER s e \<and> a + 4 < e"
    by simp
  from h have f: "find_str s START_MARKER = int a" by (simp add: find_str_first)
  from h have r: "rfind_str s END_MARKER = int e" by (simp add: rfind_str_last)
  from h have lt: "a + 4 < e" by simp
  from h have "e + 4 \<le> length s" by (simp add: last_occurrence_def occurs_at_def END_MARKER_def)
  then have len: "length (py_slice s (a + 4) e) = e - (a + 4)" using lt by (simp add: py_slice_def)
  define d where "d = e - (a + 4)"
  have cut: "d - d mod 8 = 8 * (d div 8)" by (simp add: minus_mod_eq_mult_div)
  have tk: "take (8 * (d div 8)) (py_slice s (a + 4) e) = take (8 * (d div 8)) (drop (a + 4) s)"
    unfolding py_slice_def d_def by (simp add: min_def)
  have al: "d mod 8 = 0 \<Longrightarrow> py_slice s (a + 4) e = take (8 * (d div 8)) (drop (a + 4) s)"
    unfolding py_slice_def d_def by auto
  have nat1: "nat (int a + 4) = a + 4" by simp
  show "parse_frame s =
            (if (e - (a + 4)) div 8 = 0 then Inl NoDataBetweenMarkers
             else Inr (take (8 * ((e - (a + 4)) div 8)) (drop (a + 4) s)))"
  proof (cases "d mod 8 = 0")
    case True
    have dz: "d div 8 = 0 \<longleftrightarrow> d = 0" using True by auto
    show ?thesis
      unfolding parse_frame_def f r Let_def
      using lt True al len dz
      by (simp add: START_MARKER_def nat1 d_def [symmetric])
  next
    case False
    have l2: "length (take (d - d mod 8) (py_slice s (a + 4) e)) = 8 * (d div 8)"
      using len cut by (simp add: d_def [symmetric])
    show ?thesis
      unfolding parse_frame_def f r Let_def
      using lt False len l2 tk cut
      by (simp add: START_MARKER_def nat1 d_def [symmetric])
  qed
qed

text \<open>
  Claim C3. Parsing the extracted bit stream fails with the missing-start-marker error when
  1010 does not occur in it; with the missing-end-marker error when no 0101 occurs strictly
  after the position that follows the first 1010; and with the empty-frame error when the
  region between the markers, cut down to a multiple of 8 bits, is empty. The start marker
  used is the first 1010 of the stream and the end marker used is the last 0101 of the
  stream; the data returned is the region between them, cut down to whole bytes.
\<close>

theorem parse_frame_outcomes:
  "((\<forall>i. \<not> occurs_at START_MARKER s i) \<longrightarrow> parse_frame s = Inl StartMarkerNotFound)
   \<and> (first_occurrence START_MARKER s a \<and> (\<forall>j. occurs_at END_MARKER s j \<longrightarrow> j \<le> a + 4)
        \<longrightarrow> parse_frame s = Inl EndMarkerNotFound)
   \<and> (first_occurrence START_MARKER s a \<and> last_occurrence END_MARKER s e \<and> a + 4 < e
        \<longrightarrow> parse_frame s =
            (if (e - (a + 4)) div 8 = 0 then Inl NoDataBetweenMarkers
             else Inr (take (8 * ((e - (a + 4)) div 8)) (drop (a + 4) s))))"
proof (intro conjI impI)
  assume "\<forall>i. \<not> occurs_at START_MARKER s i"
  then have "find_str s START_MARKER = - 1" by (simp add: find_str_none)
  then show "parse_frame s = Inl StartMarkerNotFound" by (simp add: parse_frame_def)
next
  assume h: "first_occurrence START_MARKER s a \<and> (\<forall>j. occurs_at END_MARKER s j \<longrightarrow> j \<le> a + 4)"
  then have f: "find_str s START_MARKER = int a" by (simp add: find_str_first)
  have "rfind_str s END_MARKER = - 1 \<or> rfind_str s END_MARKER \<le> int a + 4"
  proof (cases "\<exists>j. occurs_at END_MARKER s j")
    case True
    then obtain j where "occurs_at END_MARKER s j" ..
    then obtain e where e: "last_occurrence END_MARKER s e" "rfind_str s END_MARKER = int e"
      using rfind_str_exists by blast
    then have "e \<le> a + 4" using h by (simp add: last_occurrence_def)
    with e show ?thesis by simp
  next
    case False
    then show ?thesis by (simp add: rfind_str_none)
  qed
  then show "parse_frame s = Inl EndMarkerNotFound"
    using f by (auto simp: parse_frame_def Let_def START_MARKER_def)
next
  assume "first_occurrence START_MARKER s a \<and> last_occurrence END_MARKER s e \<and> a + 4 < e"
  then show "parse_frame s =
            (if (e - (a + 4)) div 8 = 0 then Inl NoDataBetweenMarkers
             else Inr (take (8 * ((e - (a + 4)) div 8)) (drop (a + 4) s)))"
    using parse_frame_between by blast
qed

theorem parse_frame_outcomes_witness:
  "parse_frame ''00010001'' = Inl StartMarkerNotFound
   \<and> parse_frame ''0010100101'' = Inl EndMarkerNotFound
   \<and> parse_frame ''1010001010101'' = Inl NoDataBetweenMarkers
   \<and> parse_frame ''01010110000010101001'' = Inr ''11000001''"
proof -
  have 1: "\<forall>i. \<not> occurs_at START_MARKER ''00010001'' i"
    unfolding occurrences_empty [symmetric] by code_simp
  have o2: "occurrences START_MARKER ''0010100101'' = [2]"
    "occurrences END_MARKER ''0010100101'' = [1, 6]"
    by code_simp+
  have 2: "first_occurrence START_MARKER ''0010100101'' 2
      \<and> (\<forall>j. occurs_at END_MARKER ''0010100101'' j \<longrightarrow> j \<le> 2 + 4)"
    unfolding first_occurrence_def occurrences_iff [symmetric] o2 by simp
  have o3: "occurrences START_MARKER ''1010001010101'' = [0, 6, 8]"
    "occurrences END_MARKER ''1010001010101'' = [5, 7, 9]"
    by code_simp+
  have 3: "first_occurrence START_MARKER ''1010001010101'' 0
      \<and> last_occurrence END_MARKER ''1010001010101'' 9 \<and> 0 + 4 < (9 :: nat)"
    unfolding first_occurrence_def last_occurrence_def occurrences_iff [symmetric] o3 by simp
  have o4: "occurrences START_MARKER ''01010110000010101001'' = [1, 12, 14]"
    "occurrences END_MARKER ''01010110000010101001'' = [0, 2, 11, 13]"
    by code_simp+
  have 4: "first_occurrence START_MARKER ''01010110000010101001'' 1
      \<and> last_occurrence END_MARKER ''01010110000010101001'' 13 \<and> 1 + 4 < (13 :: nat)"
    unfolding first_occurrence_def last_occurrence_def occurrences_iff [symmetric] o4 by simp
  show ?thesis
    using parse_frame_outcomes [of "''00010001''" 0 0] 1
      parse_frame_outcomes [of "''0010100101''" 2 0] 2
      parse_frame_outcomes [of "''1010001010101''" 0 9] 3
      parse_frame_outcomes [of "''01010110000010101001''" 1 13] 4
    by simp
qed

section \<open>The encoding loop\<close>

lemma chunk_value:
  assumes "binary cb" and "i < length cb" and "0 < k"
  shows "\<exists>v. int_base2 (py_slice cb i (i + min k (length cb - i))) = Some v
           \<and> v < 2 ^ min k (length cb - i)
           \<and> length (py_slice cb i (i + min k (length cb - i))) = min k (length cb - i)
           \<and> 0 < min k (length cb - i)"
proof -
  let ?n = "min k (length cb - i)"
  let ?bs = "py_slice cb i (i + ?n)"
  have len: "length ?bs = ?n" using assms(2) by (simp add: py_slice_def)
  have pos: "0 < ?n" using assms(2,3) by simp
  have "set ?bs \<subseteq> set cb"
    unfolding py_slice_def by (meson set_take_subset set_drop_subset subset_trans)
  then have "binary ?bs" using assms(1) by (auto simp: binary_def)
  then obtain v where v: "bin_val 0 ?bs = Some v" using bin_val_binary by blast
  have ne: "?bs \<noteq> []" using len pos by auto
  have "v < 2 ^ ?n" using bin_val_bound [OF v] len by simp
  then show ?thesis using v ne len pos by (simp add: int_base2_def)
qed

lemma move_index_bound:
  assumes "binary cb" and "i < length cb" and "2 \<le> n"
  shows "\<exists>v. int_base2 (py_slice cb i (i + min (floor_log2 n) (length cb - i))) = Some v \<and> v < n"
proof -
  from assms(3) have p: "0 < floor_log2 n" by (rule floor_log2_pos)
  from chunk_value [OF assms(1,2) p] obtain v
    where v: "int_base2 (py_slice cb i (i + min (floor_log2 n) (length cb - i))) = Some v"
      and b: "v < 2 ^ min (floor_log2 n) (length cb - i)" by blast
  have "(2 :: nat) ^ min (floor_log2 n) (length cb - i) \<le> 2 ^ floor_log2 n"
    by (rule power_increasing) simp_all
  also have "\<dots> \<le> n" using assms(3) by (intro floor_log2_pow) simp
  finally show ?thesis using v b by auto
qed

text \<open>The second branch of an iteration, once the move index is known.\<close>

lemma encode_iter_choice:
  assumes "binary cb" and "file_bit_index st < length cb"
    and "2 \<le> length (legal_moves W (chess_board st))"
  shows "\<exists>idx.
      int_base2 (py_slice cb (file_bit_index st)
         (file_bit_index st + min (floor_log2 (length (legal_moves W (chess_board st))))
                                 (length cb - file_bit_index st))) = Some idx
    \<and> idx < length (legal_moves W (chess_board st))
    \<and> encode_iter W seeds cb e c st =
        (if length (fst (shuffle W (move_random st) (legal_moves W (chess_board st)))) \<le> idx
         then Inl PyIndexError
         else Inr (end_game_check W seeds cb e c
                (push_chosen (fst (shuffle W (move_random st) (legal_moves W (chess_board st))) ! idx)
                   (snd (shuffle W (move_random st) (legal_moves W (chess_board st))))
                   (min (floor_log2 (length (legal_moves W (chess_board st))))
                        (length cb - file_bit_index st))
                   (py_slice cb (file_bit_index st)
                      (file_bit_index st + min (floor_log2 (length (legal_moves W (chess_board st))))
                                 (length cb - file_bit_index st)))
                   st)))"
proof -
  from move_index_bound [OF assms] obtain idx
    where "int_base2 (py_slice cb (file_bit_index st)
         (file_bit_index st + min (floor_log2 (length (legal_moves W (chess_board st))))
                                 (length cb - file_bit_index st))) = Some idx"
      and "idx < length (legal_moves W (chess_board st))" by blast
  then show ?thesis using assms(3) by (simp add: encode_iter_def Let_def)
qed

lemma encode_iter_forced:
  "length (legal_moves W (chess_board st)) \<le> 1 \<Longrightarrow>
     encode_iter W seeds cb e c st = Inr (forced_step W seeds e c (legal_moves W (chess_board st)) st)"
  by (simp add: encode_iter_def Let_def)

lemma encode_iter_no_value_error:
  assumes "binary cb" and "file_bit_index st < length cb"
  shows "encode_iter W seeds cb e c st \<noteq> Inl InvalidMoveIndex"
    and "encode_iter W seeds cb e c st \<noteq> Inl PyValueError"
proof -
  show "encode_iter W seeds cb e c st \<noteq> Inl InvalidMoveIndex"
  proof (cases "length (legal_moves W (chess_board st)) \<le> 1")
    case True
    then show ?thesis by (simp add: encode_iter_forced)
  next
    case False
    then have "2 \<le> length (legal_moves W (chess_board st))" by simp
    from encode_iter_choice [OF assms this, of seeds e c] show ?thesis
      by (auto split: if_splits)
  qed
  show "encode_iter W seeds cb e c st \<noteq> Inl PyValueError"
  proof (cases "length (legal_moves W (chess_board st)) \<le> 1")
    case True
    then show ?thesis by (simp add: encode_iter_forced)
  next
    case False
    then have "2 \<le> length (legal_moves W (chess_board st))" by simp
    from encode_iter_choice [OF assms this, of seeds e c] show ?thesis
      by (auto split: if_splits)
  qed
qed

lemma encode_loop_no_value_error:
  "binary cb \<Longrightarrow> encode_loop W seeds cb e c fuel st \<noteq> Some (Inl InvalidMoveIndex)"
proof (induction fuel arbitrary: st)
  case 0
  then show ?case by simp
next
  case (Suc fuel)
  show ?case
  proof (cases "file_bit_index st < length cb")
    case True
    show ?thesis
    proof (cases "encode_iter W seeds cb e c st")
      case (Inl err)
      then have "err \<noteq> InvalidMoveIndex"
        using encode_iter_no_value_error(1) [OF Suc.prems True, of W seeds e c] by auto
      then show ?thesis using True Inl by simp
    next
      case (Inr st')
      then show ?thesis using True Suc.IH [OF Suc.prems] by simp
    qed
  next
    case False
    then show ?thesis by simp
  qed
qed

text \<open>A property kept by every iteration holds when the loop returns.\<close>

lemma encode_loop_invariant:
  assumes step: "\<And>st st'. I st \<Longrightarrow> file_bit_index st < length cb \<Longrightarrow>
      encode_iter W seeds cb e c st = Inr st' \<Longrightarrow> I st'"
    and "I st0" and "encode_loop W seeds cb e c fuel st0 = Some (Inr st)"
  shows "I st \<and> length cb \<le> file_bit_index st"
  using assms(2,3)
proof (induction fuel arbitrary: st0)
  case 0
  then show ?case by (auto split: if_splits)
next
  case (Suc fuel)
  show ?case
  proof (cases "file_bit_index st0 < length cb")
    case True
    with Suc.prems(2) obtain st1 where it: "encode_iter W seeds cb e c st0 = Inr st1"
      and rest: "encode_loop W seeds cb e c fuel st1 = Some (Inr st)"
      by (auto split: sum.splits)
    from step [OF Suc.prems(1) True it] have "I st1" .
    from Suc.IH [OF this rest] show ?thesis .
  next
    case False
    with Suc.prems show ?thesis by auto
  qed
qed

text \<open>
  Claim C4. At a position with two or more legal moves the encoding step reads
  \<open>min (floor_log2 n) remaining\<close> bits as a big-endian unsigned number; that number is
  always below the number of legal moves, so the step never takes the out-of-range branch,
  and \<open>encode\<close> never fails with the invalid-move-index error, whatever the payload, the
  rules engine and the seeds.
\<close>

theorem move_index_in_range:
  "(binary cb \<and> file_bit_index st < length cb \<and> 2 \<le> length (legal_moves W (chess_board st))
      \<longrightarrow> (\<exists>idx. int_base2 (bits_at W cb st) = Some idx
                \<and> idx = big_endian_value (bits_at W cb st)
                \<and> idx < length (legal_moves W (chess_board st)))
          \<and> length (bits_at W cb st) = bits_to_encode_at W cb st
          \<and> encode_iter W seeds cb e c st \<noteq> Inl InvalidMoveIndex)
   \<and> encode_state W seeds now fuel input_file timer custom \<noteq> Some (Inl InvalidMoveIndex)"
  unfolding max_bits_at_def bits_to_encode_at_def bits_at_def shuffled_at_def advanced_at_def
proof (intro conjI impI)
  assume h: "binary cb \<and> file_bit_index st < length cb
      \<and> 2 \<le> length (legal_moves W (chess_board st))"
  let ?bits = "py_slice cb (file_bit_index st)
                   (file_bit_index st + min (floor_log2 (length (legal_moves W (chess_board st))))
                                           (length cb - file_bit_index st))"
  from h obtain idx where idx: "int_base2 ?bits = Some idx"
    "idx < length (legal_moves W (chess_board st))"
    using move_index_bound by blast
  have "set ?bits \<subseteq> set cb"
    unfolding py_slice_def by (meson set_take_subset set_drop_subset subset_trans)
  with h have "binary ?bits" by (auto simp: binary_def)
  then have "bin_val 0 ?bits = Some (big_endian_value ?bits)" by (rule bin_val_big_endian)
  with idx(1) have "idx = big_endian_value ?bits"
    by (auto simp: int_base2_def split: if_splits)
  with idx show "\<exists>idx. int_base2 ?bits = Some idx \<and> idx = big_endian_value ?bits
      \<and> idx < length (legal_moves W (chess_board st))" by blast
  from h show "length ?bits = min (floor_log2 (length (legal_moves W (chess_board st))))
                                           (length cb - file_bit_index st)"
    by (simp add: py_slice_def)
  from h show "encode_iter W seeds cb e c st \<noteq> Inl InvalidMoveIndex"
    using encode_iter_no_value_error(1) by blast
next
  show "encode_state W seeds now fuel input_file timer custom \<noteq> Some (Inl InvalidMoveIndex)"
  proof (cases "read_input_file input_file")
    case (Inl err)
    then have "err \<noteq> InvalidMoveIndex"
      by (auto simp: read_input_file_def split: option.splits if_splits)
    with Inl show ?thesis by (simp add: encode_state_def)
  next
    case (Inr file_bytes)
    have "encode_loop W seeds (complete_binary file_bytes) (expiry_of now timer) custom fuel
            (initial_state W seeds) \<noteq> Some (Inl InvalidMoveIndex)"
      by (rule encode_loop_no_value_error) (rule binary_complete_binary)
    with Inr show ?thesis
      by (auto simp: encode_state_def Let_def split: option.splits sum.splits)
  qed
qed

theorem move_index_in_range_witness:
  "binary (complete_binary [0x00])
   \<and> file_bit_index (initial_state octal_world (\<lambda>i. 1)) < length (complete_binary [0x00])
   \<and> 2 \<le> length (legal_moves octal_world (chess_board (initial_state octal_world (\<lambda>i. 1))))
   \<and> int_base2 (py_slice (complete_binary [0x00]) 0 3) = Some 5
   \<and> encode_iter octal_world (\<lambda>i. 1) (complete_binary [0x00]) None None
        (initial_state octal_world (\<lambda>i. 1)) \<noteq> Inl InvalidMoveIndex
   \<and> encode_state octal_world (\<lambda>i. 1) 0 20 (Some [0x00]) None None \<noteq> Some (Inl InvalidMoveIndex)"
proof -
  have 1: "binary (complete_binary [0x00])" by (rule binary_complete_binary)
  have 2: "file_bit_index (initial_state octal_world (\<lambda>i. 1)) < length (complete_binary [0x00])"
    by (simp add: initial_state_def length_complete_binary)
  have 3: "2 \<le> length (legal_moves octal_world (chess_board (initial_state octal_world (\<lambda>i. 1))))"
    by (simp add: octal_world_def)
  have 4: "int_base2 (py_slice (complete_binary [0x00]) 0 3) = Some 5" by code_simp
  show ?thesis
    using move_index_in_range [where cb = "complete_binary [0x00]"
        and st = "initial_state octal_world (\<lambda>i. 1)" and W = octal_world
        and seeds = "\<lambda>i. 1" and e = None and c = None and now = 0 and fuel = 20
        and input_file = "Some [0x00]" and timer = None and custom = None] 1 2 3 4
    by simp
qed

lemma forced_step_cursor:
  "file_bit_index (forced_step W seeds e c lm st) = file_bit_index st
   \<and> consumed (forced_step W seeds e c lm st) = consumed st"
  by (simp add: forced_step_def new_game_def append_record_def Let_def)

text \<open>
  Claim C5. At a position with at most one legal move, the encoding step takes no bits: the
  cursor stays where it is and the sole legal move, if there is one, is pushed (the game is
  then either continued or written out with exactly these moves). The decoding step emits no
  bits there, leaves the generator alone and pushes the recorded move, so a forced move is
  replayed to the same position.
\<close>

theorem forced_move_no_bits:
  "length (legal_moves W (chess_board st)) \<le> 1 \<longrightarrow>
     (\<exists>st'. encode_iter W seeds cb e c st = Inr st'
        \<and> file_bit_index st' = file_bit_index st \<and> consumed st' = consumed st
        \<and> ((chess_board st' = chess_board st @ legal_moves W (chess_board st)
              \<and> output_pgns st' = output_pgns st)
            \<or> (chess_board st' = []
              \<and> (\<exists>g. output_pgns st' = output_pgns st @ [g]
                    \<and> mainline_moves g = chess_board st @ legal_moves W (chess_board st)))))
     \<and> decode_move W game_index (chess_board st, r, all_bits) m
          = Inr (chess_board st @ [m], r, all_bits)"
proof (intro impI conjI)
  assume h: "length (legal_moves W (chess_board st)) \<le> 1"
  let ?lm = "legal_moves W (chess_board st)"
  have one: "?lm \<noteq> [] \<Longrightarrow> [?lm ! 0] = ?lm"
    using h by (cases ?lm) auto
  have it: "encode_iter W seeds cb e c st = Inr (forced_step W seeds e c ?lm st)"
    using h by (rule encode_iter_forced)
  have "(chess_board (forced_step W seeds e c ?lm st) = chess_board st @ ?lm
              \<and> output_pgns (forced_step W seeds e c ?lm st) = output_pgns st)
            \<or> (chess_board (forced_step W seeds e c ?lm st) = []
              \<and> (\<exists>g. output_pgns (forced_step W seeds e c ?lm st) = output_pgns st @ [g]
                    \<and> mainline_moves g = chess_board st @ ?lm))"
    using one
    by (auto simp: forced_step_def new_game_def append_record_def create_game_record_def Let_def)
  then show "\<exists>st'. encode_iter W seeds cb e c st = Inr st'
        \<and> file_bit_index st' = file_bit_index st \<and> consumed st' = consumed st
        \<and> ((chess_board st' = chess_board st @ ?lm \<and> output_pgns st' = output_pgns st)
            \<or> (chess_board st' = []
              \<and> (\<exists>g. output_pgns st' = output_pgns st @ [g]
                    \<and> mainline_moves g = chess_board st @ ?lm)))"
    using it forced_step_cursor [of W seeds e c ?lm st] by simp
  show "decode_move W game_index (chess_board st, r, all_bits) m
          = Inr (chess_board st @ [m], r, all_bits)"
    using h by (simp add: decode_move_def Let_def)
qed

theorem forced_move_no_bits_witness:
  "length (legal_moves corridor_world [3]) \<le> 1
   \<and> encode_iter corridor_world (\<lambda>i. 1) ''1010000000000101'' None None
        \<lparr>output_pgns = [], file_bit_index = 2, chess_board = [3], base_seed = 1,
         move_random = 1, game_number = 1, seeds_drawn = 1, consumed = [''10'']\<rparr>
      = Inr \<lparr>output_pgns = [], file_bit_index = 2, chess_board = [3, 9], base_seed = 1,
             move_random = 1, game_number = 1, seeds_drawn = 1, consumed = [''10'']\<rparr>
   \<and> decode_move corridor_world 0 ([3], 1, ''10'') 9 = Inr ([3, 9], 1, ''10'')"
proof -
  let ?st = "\<lparr>output_pgns = [], file_bit_index = 2, chess_board = [3], base_seed = 1,
         move_random = 1 :: nat, game_number = 1, seeds_drawn = 1, consumed = [''10'']\<rparr>
         :: (nat, nat) enc_state"
  have h: "length (legal_moves corridor_world (chess_board ?st)) \<le> 1"
    by (simp add: corridor_world_def)
  have ev: "encode_iter corridor_world (\<lambda>i. 1) ''1010000000000101'' None None ?st
      = Inr \<lparr>output_pgns = [], file_bit_index = 2, chess_board = [3, 9], base_seed = 1,
             move_random = 1, game_number = 1, seeds_drawn = 1, consumed = [''10'']\<rparr>"
    by code_simp
  show ?thesis
    using forced_move_no_bits [where W = corridor_world and st = ?st and seeds = "\<lambda>i. 1"
        and cb = "''1010000000000101''" and e = None and c = None and game_index = 0
        and r = 1 and all_bits = "''10''" and m = 9] h ev
    by simp
qed

lemma end_game_check_cursor:
  "file_bit_index (end_game_check W seeds cb e c st) = file_bit_index st
   \<and> consumed (end_game_check W seeds cb e c st) = consumed st"
  by (simp add: end_game_check_def new_game_def append_record_def Let_def)

lemma push_chosen_cursor:
  "file_bit_index (push_chosen m r k bits st) = file_bit_index st + k
   \<and> consumed (push_chosen m r k bits st) = consumed st @ [bits]"
  by (simp add: push_chosen_def)

lemma encode_iter_cursor:
  assumes "cursor_inv cb st" and "binary cb" and "file_bit_index st < length cb"
    and "encode_iter W seeds cb e c st = Inr st'"
  shows "cursor_inv cb st'
     \<and> (if 2 \<le> length (legal_moves W (chess_board st))
        then consumed st' = consumed st @ [py_slice cb (file_bit_index st) (file_bit_index st')]
           \<and> file_bit_index st < file_bit_index st'
           \<and> file_bit_index st' = file_bit_index st
                + min (floor_log2 (length (legal_moves W (chess_board st))))
                      (length cb - file_bit_index st)
        else consumed st' = consumed st \<and> file_bit_index st' = file_bit_index st)"
proof (cases "2 \<le> length (legal_moves W (chess_board st))")
  case False
  then have "length (legal_moves W (chess_board st)) \<le> 1" by simp
  from encode_iter_forced [OF this, of seeds cb e c] assms(4)
  have "st' = forced_step W seeds e c (legal_moves W (chess_board st)) st" by simp
  then show ?thesis
    using False assms(1) forced_step_cursor [of W seeds e c "legal_moves W (chess_board st)" st]
    by (simp add: cursor_inv_def)
next
  case True
  let ?i = "file_bit_index st"
  let ?k = "min (floor_log2 (length (legal_moves W (chess_board st)))) (length cb - ?i)"
  let ?bits = "py_slice cb ?i (?i + ?k)"
  from encode_iter_choice [OF assms(2,3) True, of seeds e c] assms(4)
  obtain m r where st': "st' = end_game_check W seeds cb e c (push_chosen m r ?k ?bits st)"
    by (auto split: if_splits)
  have i': "file_bit_index st' = ?i + ?k" and c': "consumed st' = consumed st @ [?bits]"
    unfolding st' by (simp_all add: end_game_check_cursor push_chosen_cursor)
  have kpos: "0 < ?k" using floor_log2_pos [OF True] assms(3) by simp
  have le: "?i + ?k \<le> length cb" using assms(3) by simp
  have "concat (consumed st') = take ?i cb @ take ?k (drop ?i cb)"
    using assms(1) by (simp add: c' cursor_inv_def py_slice_def)
  also have "\<dots> = take (?i + ?k) cb" by (simp add: take_add)
  finally have "cursor_inv cb st'" using le i' by (simp add: cursor_inv_def)
  then show ?thesis using True i' c' kpos by simp
qed

text \<open>
  Claim C7. Every bit of the wrapped bit stream is taken exactly once: an iteration at a
  position with two or more legal moves takes the slice that starts at the cursor and moves
  the cursor to its end, any other iteration leaves the cursor alone, so the slices taken,
  in order, always make up the bits before the cursor. When \<open>encode\<close> returns, the cursor is
  at the length of the wrapped bit stream, the slices taken make up the whole stream, and a
  board with moves on it has been written out as the last game.
\<close>

theorem bits_consumed_once:
  "(cursor_inv cb st \<and> binary cb \<and> file_bit_index st < length cb
      \<and> encode_iter W seeds cb e c st = Inr st'
     \<longrightarrow> cursor_inv cb st'
       \<and> (if 2 \<le> length (legal_moves W (chess_board st))
          then consumed st' = consumed st @ [py_slice cb (file_bit_index st) (file_bit_index st')]
             \<and> file_bit_index st < file_bit_index st'
             \<and> file_bit_index st' = file_bit_index st + bits_to_encode_at W cb st
          else consumed st' = consumed st \<and> file_bit_index st' = file_bit_index st))
   \<and> (encode_state W seeds now fuel (Some payload) timer custom = Some (Inr st)
     \<longrightarrow> file_bit_index st = length (complete_binary payload)
       \<and> concat (consumed st) = complete_binary payload
       \<and> (chess_board st \<noteq> []
            \<longrightarrow> output_pgns st \<noteq> [] \<and> mainline_moves (last (output_pgns st)) = chess_board st))"
  unfolding max_bits_at_def bits_to_encode_at_def bits_at_def shuffled_at_def advanced_at_def
proof (intro conjI impI)
  assume "cursor_inv cb st \<and> binary cb \<and> file_bit_index st < length cb
      \<and> encode_iter W seeds cb e c st = Inr st'"
  then have *: "cursor_inv cb st'
       \<and> (if 2 \<le> length (legal_moves W (chess_board st))
          then consumed st' = consumed st @ [py_slice cb (file_bit_index st) (file_bit_index st')]
             \<and> file_bit_index st < file_bit_index st'
             \<and> file_bit_index st' = file_bit_index st
                  + min (floor_log2 (length (legal_moves W (chess_board st))))
                        (length cb - file_bit_index st)
          else consumed st' = consumed st \<and> file_bit_index st' = file_bit_index st)"
    using encode_iter_cursor by blast
  show "cursor_inv cb st'" by (rule conjunct1 [OF *])
  show "if 2 \<le> length (legal_moves W (chess_board st))
          then consumed st' = consumed st @ [py_slice cb (file_bit_index st) (file_bit_index st')]
             \<and> file_bit_index st < file_bit_index st'
             \<and> file_bit_index st' = file_bit_index st
                  + min (floor_log2 (length (legal_moves W (chess_board st))))
                        (length cb - file_bit_index st)
          else consumed st' = consumed st \<and> file_bit_index st' = file_bit_index st"
    by (rule conjunct2 [OF *])
next
  assume run: "encode_state W seeds now fuel (Some payload) timer custom = Some (Inr st)"
  let ?cb = "complete_binary payload"
  let ?e = "expiry_of now timer"
  from run obtain st1 where
    loop: "encode_loop W seeds ?cb ?e custom fuel (initial_state W seeds) = Some (Inr st1)"
    and st: "st = save_final_game ?e custom st1"
    by (auto simp: encode_state_def read_input_file_def Let_def
        split: if_splits option.splits sum.splits)
  have init: "cursor_inv ?cb (initial_state W seeds)"
    by (simp add: cursor_inv_def initial_state_def)
  have "cursor_inv ?cb st1 \<and> length ?cb \<le> file_bit_index st1"
  proof (rule encode_loop_invariant [where I = "cursor_inv ?cb", OF _ init loop])
    fix s s' assume "cursor_inv ?cb s" "file_bit_index s < length ?cb"
      "encode_iter W seeds ?cb ?e custom s = Inr s'"
    then show "cursor_inv ?cb s'"
      using encode_iter_cursor [OF _ binary_complete_binary] by blast
  qed
  then have 1: "file_bit_index st1 = length ?cb" and 2: "concat (consumed st1) = ?cb"
    by (auto simp: cursor_inv_def)
  have same: "file_bit_index st = file_bit_index st1" "consumed st = consumed st1"
    "chess_board st = chess_board st1"
    unfolding st by (simp_all add: save_final_game_def append_record_def)
  show "file_bit_index st = length ?cb" using 1 same by simp
  show "concat (consumed st) = ?cb" using 2 same by simp
  show "output_pgns st \<noteq> []" if "chess_board st \<noteq> []"
    using that same unfolding st by (simp add: save_final_game_def append_record_def)
  show "mainline_moves (last (output_pgns st)) = chess_board st" if "chess_board st \<noteq> []"
    using that same unfolding st
    by (simp add: save_final_game_def append_record_def create_game_record_def Let_def)
qed

theorem bits_consumed_once_witness:
  "(\<exists>st'. encode_iter octal_world (\<lambda>i. 1) ''1010000000000101'' None None
            (initial_state octal_world (\<lambda>i. 1)) = Inr st'
       \<and> cursor_inv ''1010000000000101'' st'
       \<and> consumed st' = [''101''] \<and> file_bit_index st' = 3)
   \<and> (\<exists>st. encode_state octal_world (\<lambda>i. 1) 0 20 (Some [0x00]) None None = Some (Inr st)
       \<and> file_bit_index st = 16
       \<and> consumed st = [''101'', ''000'', ''000'', ''000'', ''010'', ''1'']
       \<and> concat (consumed st) = complete_binary [0x00]
       \<and> mainline_moves (last (output_pgns st)) = [6, 2, 3, 4, 7, 7])"
proof -
  let ?cb = "''1010000000000101''"
  let ?init = "initial_state octal_world (\<lambda>i. 1)"
  let ?next = "\<lparr>output_pgns = [], file_bit_index = 3, chess_board = [6], base_seed = 1,
             move_random = 2 :: nat, game_number = 1, seeds_drawn = 1, consumed = [''101'']\<rparr>
             :: (nat, nat) enc_state"
  let ?final = "\<lparr>output_pgns =
          [\<lparr>headers = default_headers @ [(''Seed'', ''1'')],
            mainline_moves = [6, 2, 3, 4, 7, 7]\<rparr>],
          file_bit_index = 16, chess_board = [6, 2, 3, 4, 7, 7],
          base_seed = 1, move_random = 7 :: nat, game_number = 1, seeds_drawn = 1,
          consumed = [''101'', ''000'', ''000'', ''000'', ''010'', ''1'']\<rparr>
          :: (nat, nat) enc_state"
  have h1: "cursor_inv ?cb ?init" by (simp add: cursor_inv_def initial_state_def)
  have h2: "binary ?cb" by (simp add: binary_def)
  have h3: "file_bit_index ?init < length ?cb" by (simp add: initial_state_def)
  note h = h1 h2 h3
  have it: "encode_iter octal_world (\<lambda>i. 1) ?cb None None ?init = Inr ?next"
    by code_simp
  have ev: "encode_state octal_world (\<lambda>i. 1) 0 20 (Some [0x00]) None None = Some (Inr ?final)"
    by code_simp
  from bits_consumed_once [where W = octal_world and seeds = "\<lambda>i. 1" and cb = ?cb
      and e = None and c = None and st = ?init and st' = ?next] h it
  have 1: "cursor_inv ?cb ?next" by blast
  from bits_consumed_once [where W = octal_world and seeds = "\<lambda>i. 1" and now = 0
      and fuel = 20 and payload = "[0x00]" and timer = None and custom = None and st = ?final] ev
  have 2: "file_bit_index ?final = length (complete_binary [0x00])
       \<and> concat (consumed ?final) = complete_binary [0x00]
       \<and> (chess_board ?final \<noteq> []
            \<longrightarrow> output_pgns ?final \<noteq> [] \<and> mainline_moves (last (output_pgns ?final)) = chess_board ?final)"
    by blast
  have a: "\<exists>st'. encode_iter octal_world (\<lambda>i. 1) ?cb None None ?init = Inr st'
       \<and> cursor_inv ?cb st' \<and> consumed st' = [''101''] \<and> file_bit_index st' = 3"
    using it 1 by (intro exI [of _ ?next]) simp
  have b: "\<exists>st. encode_state octal_world (\<lambda>i. 1) 0 20 (Some [0x00]) None None = Some (Inr st)
       \<and> file_bit_index st = 16
       \<and> consumed st = [''101'', ''000'', ''000'', ''000'', ''010'', ''1'']
       \<and> concat (consumed st) = complete_binary [0x00]
       \<and> mainline_moves (last (output_pgns st)) = [6, 2, 3, 4, 7, 7]"
    using ev 2 by (intro exI [of _ ?final]) simp
  show ?thesis using a b by blast
qed

section \<open>Generators and headers\<close>












text \<open>The headers written by \<open>create_game_record\<close>.\<close>

lemma map_of_fold_update_other:
  "key \<notin> fst ` set xs \<Longrightarrow>
     map_of (fold (\<lambda>(k, v) h. AList.update k v h) xs h) key = map_of h key"
  by (induction xs arbitrary: h) (auto simp: update_conv')

lemma keys_fold_custom:
  "key \<notin> fst ` set d \<Longrightarrow> key \<notin> fst ` set ch \<Longrightarrow>
     key \<notin> fst ` set (fold (\<lambda>(k, v) d. if v \<noteq> [] then AList.update k v d else d) ch d)"
proof (induction ch arbitrary: d)
  case Nil
  then show ?case by simp
next
  case (Cons x ch)
  obtain k v where x: "x = (k, v)" by (cases x)
  from Cons.prems have ne: "key \<noteq> k" and rest: "key \<notin> fst ` set ch" by (auto simp: x)
  have "key \<notin> fst ` set (if v \<noteq> [] then AList.update k v d else d)"
    using Cons.prems(1) ne by (simp add: dom_update)
  from Cons.IH [OF this rest] show ?case by (simp add: x)
qed

lemma seed_not_default: "''Seed'' \<notin> fst ` set default_headers"
  by (simp add: default_headers_def)

lemma create_game_record_seed:
  assumes "\<forall>ch. gh = Some ch \<longrightarrow> ''Seed'' \<notin> fst ` set ch"
  shows "seed_header (create_game_record board seed e gh) = py_str seed"
proof -
  let ?dh = "case gh of None \<Rightarrow> default_headers
     | Some ch \<Rightarrow> fold (\<lambda>(key, v) d. if v \<noteq> [] then AList.update key v d else d) ch default_headers"
  have "''Seed'' \<notin> fst ` set ?dh"
  proof (cases gh)
    case None
    then show ?thesis by (simp add: seed_not_default)
  next
    case (Some ch)
    with assms have "''Seed'' \<notin> fst ` set ch" by simp
    then show ?thesis using keys_fold_custom [OF seed_not_default] Some
      by simp
  qed
  then have "map_of (fold (\<lambda>(k, v) h. AList.update k v h) ?dh
        (AList.update ''Seed'' (py_str seed) default_headers)) ''Seed'' = Some (py_str seed)"
    by (simp add: map_of_fold_update_other update_conv')
  then show ?thesis
    by (cases e) (simp_all add: seed_header_def create_game_record_def Let_def update_conv')
qed

lemma game_headers_of_no_seed:
  assumes "\<forall>ch. custom = Some ch \<longrightarrow> ''Seed'' \<notin> fst ` set ch"
  shows "\<forall>ch. game_headers_of custom n = Some ch \<longrightarrow> ''Seed'' \<notin> fst ` set ch"
  using assms
  by (auto simp: game_headers_of_def Let_def dom_update split: if_splits)

lemma create_game_record_expiry:
  "map_of (headers (create_game_record board seed (Some x) gh)) ''ExpiryTime'' = Some (py_str x)"
  by (simp add: create_game_record_def Let_def update_conv')




text \<open>Every record written by an iteration comes from \<open>create_game_record\<close>.\<close>

lemma encode_iter_records:
  assumes "\<And>board seed n. P (create_game_record board seed e (game_headers_of c n))"
    and "\<forall>g \<in> set (output_pgns st). P g"
    and "encode_iter W seeds cb e c st = Inr st'"
  shows "\<forall>g \<in> set (output_pgns st'). P g"
proof (cases "length (legal_moves W (chess_board st)) \<le> 1")
  case True
  with assms(3) have "st' = forced_step W seeds e c (legal_moves W (chess_board st)) st"
    by (simp add: encode_iter_forced)
  then show ?thesis using assms(1,2)
    by (auto simp: forced_step_def new_game_def append_record_def Let_def)
next
  case False
  from assms(3) False obtain m r k bits where
    "st' = end_game_check W seeds cb e c (push_chosen m r k bits st)"
    by (auto simp: encode_iter_def Let_def split: option.splits if_splits)
  then show ?thesis using assms(1,2)
    by (auto simp: end_game_check_def push_chosen_def new_game_def append_record_def Let_def)
qed

lemma encode_state_records:
  assumes "\<And>board seed n.
      P (create_game_record board seed (expiry_of now timer) (game_headers_of custom n))"
    and "encode_state W seeds now fuel input_file timer custom = Some (Inr st)"
  shows "\<forall>g \<in> set (output_pgns st). P g"
proof -
  let ?e = "expiry_of now timer"
  from assms(2) obtain file_bytes st1 where
    loop: "encode_loop W seeds (complete_binary file_bytes) ?e custom fuel (initial_state W seeds)
             = Some (Inr st1)"
    and st: "st = save_final_game ?e custom st1"
    by (auto simp: encode_state_def Let_def split: sum.splits option.splits)
  have init: "\<forall>g \<in> set (output_pgns (initial_state W seeds)). P g"
    by (simp add: initial_state_def)
  have "(\<forall>g \<in> set (output_pgns st1). P g)
      \<and> length (complete_binary file_bytes) \<le> file_bit_index st1"
  proof (rule encode_loop_invariant
      [where I = "\<lambda>s. \<forall>g \<in> set (output_pgns s). P g", OF _ init loop])
    fix s s' assume "\<forall>g \<in> set (output_pgns s). P g"
      and "encode_iter W seeds (complete_binary file_bytes) ?e custom s = Inr s'"
    then show "\<forall>g \<in> set (output_pgns s'). P g"
      using encode_iter_records [of P ?e custom s W seeds "complete_binary file_bytes" s'] assms(1)
      by blast
  qed
  then show ?thesis using assms(1)
    unfolding st by (auto simp: save_final_game_def append_record_def)
qed



text \<open>
  Claim C9, as amended. An error inside \<open>decode\<close> aborts it, is raised as "Decoding
  failed", and leaves no file at the output path. An error inside \<open>encode\<close> aborts it before
  anything is written: the output path keeps what it held before the call (nothing is
  deleted), and only a successful run writes the games.
\<close>

theorem cleanup_on_error:
  "(fst (decode W now pgn out) \<noteq> Inr () \<longrightarrow>
      snd (decode W now pgn out) = None
      \<and> (\<exists>err. fst (decode W now pgn out) = Inl (DecodingFailed err)))
   \<and> (encode W seeds now fuel input_file outp timer custom = Some (Inl err, outp') \<longrightarrow>
        outp' = outp)
   \<and> (encode W seeds now fuel input_file outp timer custom = Some (Inr u, outp') \<longrightarrow>
        (\<exists>st. encode_state W seeds now fuel input_file timer custom = Some (Inr st)
            \<and> outp' = Some (output_pgns st)))"
proof (intro conjI impI)
  assume h: "fst (decode W now pgn out) \<noteq> Inr ()"
  obtain res o' where b: "decode_body W now pgn out = (res, o')" by (cases "decode_body W now pgn out")
  show "snd (decode W now pgn out) = None" using h b by (cases res) (simp_all add: decode_def)
  show "\<exists>err. fst (decode W now pgn out) = Inl (DecodingFailed err)"
    using h b by (cases res) (simp_all add: decode_def)
next
  assume "encode W seeds now fuel input_file outp timer custom = Some (Inl err, outp')"
  then show "outp' = outp"
    by (auto simp: encode_def split: option.splits sum.splits)
next
  assume "encode W seeds now fuel input_file outp timer custom = Some (Inr u, outp')"
  then show "\<exists>st. encode_state W seeds now fuel input_file timer custom = Some (Inr st)
            \<and> outp' = Some (output_pgns st)"
    by (auto simp: encode_def split: option.splits sum.splits)
qed

theorem cleanup_on_error_witness:
  "decode octal_world 0 NoFile (Some [7]) = (Inl (DecodingFailed PgnMissing), None)
   \<and> encode octal_world (\<lambda>i. 1) 0 20 None (Some [\<lparr>headers = [], mainline_moves = [1]\<rparr>]) None None
       = Some (Inl InputFileMissing, Some [\<lparr>headers = [], mainline_moves = [1]\<rparr>])
   \<and> encode octal_world (\<lambda>i. 1) 0 20 (Some [0x00]) (Some [\<lparr>headers = [], mainline_moves = [1]\<rparr>])
         None None
       = Some (Inr (), Some [\<lparr>headers = default_headers @ [(''Seed'', ''1'')],
                             mainline_moves = [6, 2, 3, 4, 7, 7]\<rparr>])"
proof -
  let ?old = "Some [\<lparr>headers = [], mainline_moves = [1 :: nat]\<rparr>]"
  let ?new = "Some [\<lparr>headers = default_headers @ [(''Seed'', ''1'')],
                             mainline_moves = [6, 2, 3, 4, 7, 7 :: nat]\<rparr>]"
  have d: "decode octal_world 0 NoFile (Some [7]) = (Inl (DecodingFailed PgnMissing), None)"
    by code_simp
  have e1: "encode octal_world (\<lambda>i. 1) 0 20 None ?old None None
      = Some (Inl InputFileMissing, ?old)"
    by code_simp
  have e2: "encode octal_world (\<lambda>i. 1) 0 20 (Some [0x00]) ?old None None = Some (Inr (), ?new)"
    by code_simp
  have "fst (decode octal_world 0 NoFile (Some [7])) \<noteq> Inr ()" using d by simp
  with cleanup_on_error [where W = octal_world and now = 0 and pgn = NoFile and out = "Some [7]"]
  have "snd (decode octal_world 0 NoFile (Some [7])) = None" by blast
  then show ?thesis using d e1 e2 by simp
qed

text \<open>
  Claim C9 as stated asks for more: that a failing \<open>encode\<close> deletes what was at the output
  path. It does not: on an empty input file the content found there is still there.
\<close>

theorem encode_error_keeps_output:
  "encode octal_world (\<lambda>i. 1) 0 20 (Some []) (Some [\<lparr>headers = [], mainline_moves = [1]\<rparr>])
       None None
     = Some (Inl InputFileEmpty, Some [\<lparr>headers = [], mainline_moves = [1]\<rparr>])"
  by code_simp

section \<open>Encoder and decoder at one position\<close>

lemma index_of_nth: "distinct xs \<Longrightarrow> i < length xs \<Longrightarrow> index_of xs (xs ! i) = Some i"
proof (induction xs arbitrary: i)
  case Nil
  then show ?case by simp
next
  case (Cons x xs)
  show ?case
  proof (cases i)
    case 0
    then show ?thesis by simp
  next
    case (Suc j)
    with Cons.prems have "j < length xs" "distinct xs" "xs ! j \<noteq> x" by auto
    with Cons.IH [of j] Suc show ?thesis by auto
  qed
qed

lemma decode_move_chosen:
  assumes two: "2 \<le> length (legal_moves W board)"
    and len: "length (fst (shuffle W r (legal_moves W board))) = length (legal_moves W board)"
    and dist: "distinct (map (uci W) (fst (shuffle W r (legal_moves W board))))"
    and idx: "idx < length (legal_moves W board)"
  shows "decode_move W gi (board, r, acc) (fst (shuffle W r (legal_moves W board)) ! idx) =
      Inr (board @ [fst (shuffle W r (legal_moves W board)) ! idx],
           snd (shuffle W r (legal_moves W board)),
           acc @ format_b (floor_log2 (length (legal_moves W board))) idx)"
proof -
  let ?sh = "fst (shuffle W r (legal_moves W board))"
  have i: "idx < length (map (uci W) ?sh)" using idx len by simp
  have "index_of (map (uci W) ?sh) (map (uci W) ?sh ! idx) = Some idx"
    using dist i by (rule index_of_nth)
  then have "index_of (map (uci W) ?sh) (uci W (?sh ! idx)) = Some idx"
    using i by simp
  then show ?thesis
    using two floor_log2_pos [OF two] len by (simp add: decode_move_def Let_def)
qed

text \<open>The codec run on the one-byte payload 00 in \<open>octal_world\<close>.\<close>

lemma octal_frame_zero: "complete_binary [0x00] = ''1010000000000101''"
  by code_simp

lemma octal_encode_zero:
  "encode octal_world (\<lambda>i. 1) 0 20 (Some [0x00]) None None None =
     Some (Inr (), Some [\<lparr>headers = default_headers @ [(''Seed'', ''1'')],
                          mainline_moves = [6, 2, 3, 4, 7, 7]\<rparr>])"
  by code_simp

lemma octal_extract_zero:
  "decode_games octal_world 0 []
     [\<lparr>headers = default_headers @ [(''Seed'', ''1'')], mainline_moves = [6, 2, 3, 4, 7, 7]\<rparr>]
     = Inr ''101000000000010001''"
  by code_simp

lemma octal_decode_zero:
  "decode octal_world 0
     (Parsed [\<lparr>headers = default_headers @ [(''Seed'', ''1'')],
               mainline_moves = [6, 2, 3, 4, 7, 7]\<rparr>]) None
     = (Inl (DecodingFailed EndMarkerNotFound), None)"
  by code_simp

text \<open>
  Claim C10. At a position with \<open>n \<ge> 2\<close> legal moves (whose UCI strings are distinct and
  whose list keeps its length when shuffled) the decoder writes the index of the move the
  encoder played there with exactly \<open>floor_log2 n\<close> bits, however many bits the encoder took
  at that position: when the encoder's last slice was shorter because the wrapped bit stream
  ran out, the decoder writes that slice with zeros filled in on the left. So the extracted
  bit stream can be longer than the wrapped one and end differently: for the payload 00 in
  \<open>octal_world\<close> the wrapped stream ends in 0101 and the extracted one in 010001.
\<close>

theorem decode_emits_full_width:
  "(binary cb \<and> file_bit_index st < length cb
      \<and> 2 \<le> length (legal_moves W (chess_board st))
      \<and> length (shuffled_at W st) = length (legal_moves W (chess_board st))
      \<and> distinct (map (uci W) (shuffled_at W st))
    \<longrightarrow> (\<exists>idx.
          int_base2 (bits_at W cb st) = Some idx
        \<and> encode_iter W seeds cb e c st =
            Inr (end_game_check W seeds cb e c
                (push_chosen (shuffled_at W st ! idx) (advanced_at W st)
                   (bits_to_encode_at W cb st) (bits_at W cb st) st))
        \<and> decode_move W gi (chess_board st, move_random st, acc) (shuffled_at W st ! idx) =
            Inr (chess_board st @ [shuffled_at W st ! idx], advanced_at W st,
                 acc @ replicate (max_bits_at W st - bits_to_encode_at W cb st) (CHR ''0'')
                     @ bits_at W cb st)
        \<and> length (replicate (max_bits_at W st - bits_to_encode_at W cb st) (CHR ''0'')
                     @ bits_at W cb st) = max_bits_at W st))
   \<and> (\<exists>gs bits. encode octal_world (\<lambda>i. 1) 0 20 (Some [0x00]) None None None
                    = Some (Inr (), Some gs)
        \<and> decode_games octal_world 0 [] gs = Inr bits
        \<and> length (complete_binary [0x00]) < length bits
        \<and> drop 12 (complete_binary [0x00]) = ''0101''
        \<and> drop 12 bits = ''010001'')"
  unfolding max_bits_at_def bits_to_encode_at_def bits_at_def shuffled_at_def advanced_at_def
proof (intro conjI impI)
  let ?lm = "legal_moves W (chess_board st)"
  let ?i = "file_bit_index st"
  let ?mb = "floor_log2 (length ?lm)"
  let ?k = "min ?mb (length cb - ?i)"
  let ?bits = "py_slice cb ?i (?i + ?k)"
  let ?sh = "fst (shuffle W (move_random st) ?lm)"
  assume h: "binary cb \<and> ?i < length cb \<and> 2 \<le> length ?lm \<and> length ?sh = length ?lm
      \<and> distinct (map (uci W) ?sh)"
  then have bin: "binary cb" and lt: "?i < length cb" and two: "2 \<le> length ?lm"
    and len: "length ?sh = length ?lm" and dist: "distinct (map (uci W) ?sh)" by simp_all
  from encode_iter_choice [OF bin lt two, of seeds e c] obtain idx where
    v: "int_base2 ?bits = Some idx" and b: "idx < length ?lm"
    and it: "encode_iter W seeds cb e c st =
        (if length ?sh \<le> idx then Inl PyIndexError
         else Inr (end_game_check W seeds cb e c
                (push_chosen (?sh ! idx) (snd (shuffle W (move_random st) ?lm)) ?k ?bits st)))"
    by blast
  from chunk_value [OF bin lt floor_log2_pos [OF two]]
  have bl: "length ?bits = ?k" and kpos: "0 < ?k" by auto
  then have ne: "?bits \<noteq> []" by auto
  from v ne have bv: "bin_val 0 ?bits = Some idx" by (simp add: int_base2_def)
  have "length ?bits \<le> ?mb" using bl by simp
  from format_b_bin_val [OF ne bv this]
  have fmt: "format_b ?mb idx = replicate (?mb - ?k) (CHR ''0'') @ ?bits" using bl by simp
  have enc: "encode_iter W seeds cb e c st =
      Inr (end_game_check W seeds cb e c
                (push_chosen (?sh ! idx) (snd (shuffle W (move_random st) ?lm)) ?k ?bits st))"
    using it b len by simp
  have dec: "decode_move W gi (chess_board st, move_random st, acc) (?sh ! idx) =
      Inr (chess_board st @ [?sh ! idx], snd (shuffle W (move_random st) ?lm),
           acc @ replicate (?mb - ?k) (CHR ''0'') @ ?bits)"
    using decode_move_chosen [OF two len dist b, of gi acc] fmt by simp
  show "\<exists>idx. int_base2 ?bits = Some idx
        \<and> encode_iter W seeds cb e c st =
            Inr (end_game_check W seeds cb e c
                (push_chosen (?sh ! idx) (snd (shuffle W (move_random st) ?lm)) ?k ?bits st))
        \<and> decode_move W gi (chess_board st, move_random st, acc) (?sh ! idx) =
            Inr (chess_board st @ [?sh ! idx], snd (shuffle W (move_random st) ?lm),
                 acc @ replicate (?mb - ?k) (CHR ''0'') @ ?bits)
        \<and> length (replicate (?mb - ?k) (CHR ''0'') @ ?bits) = ?mb"
    using v enc dec bl by auto
next
  show "\<exists>gs bits. encode octal_world (\<lambda>i. 1) 0 20 (Some [0x00]) None None None
                    = Some (Inr (), Some gs)
        \<and> decode_games octal_world 0 [] gs = Inr bits
        \<and> length (complete_binary [0x00]) < length bits
        \<and> drop 12 (complete_binary [0x00]) = ''0101''
        \<and> drop 12 bits = ''010001''"
    using octal_encode_zero octal_extract_zero octal_frame_zero by simp
qed

theorem decode_emits_full_width_witness:
  "int_base2 (py_slice ''1010000000000101'' 15 16) = Some 1
   \<and> encode_iter octal_world (\<lambda>i. 1) ''1010000000000101'' None None
        \<lparr>output_pgns = [], file_bit_index = 15, chess_board = [], base_seed = 1,
         move_random = 1, game_number = 1, seeds_drawn = 1, consumed = []\<rparr>
      = Inr \<lparr>output_pgns = [], file_bit_index = 16, chess_board = [2], base_seed = 1,
             move_random = 2, game_number = 1, seeds_drawn = 1, consumed = [''1'']\<rparr>
   \<and> decode_move octal_world 0 ([], 1, ''101'') 2 = Inr ([2], 2, ''101001'')"
proof -
  let ?cb = "''1010000000000101''"
  let ?st = "\<lparr>output_pgns = [], file_bit_index = 15, chess_board = [], base_seed = 1,
         move_random = 1 :: nat, game_number = 1, seeds_drawn = 1, consumed = []\<rparr>
         :: (nat, nat) enc_state"
  have h: "binary ?cb \<and> file_bit_index ?st < length ?cb
      \<and> 2 \<le> length (legal_moves octal_world (chess_board ?st))
      \<and> length (fst (shuffle octal_world (move_random ?st) (legal_moves octal_world (chess_board ?st))))
          = length (legal_moves octal_world (chess_board ?st))
      \<and> distinct (map (uci octal_world)
            (fst (shuffle octal_world (move_random ?st) (legal_moves octal_world (chess_board ?st)))))"
    by code_simp
  have v: "int_base2 (py_slice ?cb 15 16) = Some 1" by code_simp
  have ev: "encode_iter octal_world (\<lambda>i. 1) ?cb None None ?st
      = Inr \<lparr>output_pgns = [], file_bit_index = 16, chess_board = [2], base_seed = 1,
             move_random = 2, game_number = 1, seeds_drawn = 1, consumed = [''1'']\<rparr>"
    by code_simp
  have sh: "fst (shuffle octal_world (Suc 0) (legal_moves octal_world [])) ! Suc 0 = 2"
    "snd (shuffle octal_world (Suc 0) (legal_moves octal_world [])) = 2"
    "floor_log2 (length (legal_moves octal_world [])) = 3"
    by code_simp+
  from decode_emits_full_width [where cb = ?cb and st = ?st and W = octal_world
      and seeds = "\<lambda>i. 1" and e = None and c = None and gi = 0 and acc = "''101''",
      unfolded max_bits_at_def bits_to_encode_at_def bits_at_def shuffled_at_def
        advanced_at_def] h
  obtain idx where
    i: "int_base2 (py_slice ?cb (file_bit_index ?st)
             (file_bit_index ?st + min (floor_log2 (length (legal_moves octal_world (chess_board ?st))))
                                     (length ?cb - file_bit_index ?st))) = Some idx"
    and d: "decode_move octal_world 0 (chess_board ?st, move_random ?st, ''101'')
              (fst (shuffle octal_world (move_random ?st) (legal_moves octal_world (chess_board ?st))) ! idx) =
            Inr (chess_board ?st
                   @ [fst (shuffle octal_world (move_random ?st) (legal_moves octal_world (chess_board ?st))) ! idx],
                 snd (shuffle octal_world (move_random ?st) (legal_moves octal_world (chess_board ?st))),
                 ''101'' @ replicate
                         (floor_log2 (length (legal_moves octal_world (chess_board ?st)))
                            - min (floor_log2 (length (legal_moves octal_world (chess_board ?st))))
                                  (length ?cb - file_bit_index ?st))
                         (CHR ''0'')
                     @ py_slice ?cb (file_bit_index ?st)
                         (file_bit_index ?st
                            + min (floor_log2 (length (legal_moves octal_world (chess_board ?st))))
                                  (length ?cb - file_bit_index ?st)))"
    by blast
  from i have "idx = 1" using v by (simp add: sh)
  with d have "decode_move octal_world 0 ([], 1, ''101'') 2 = Inr ([2], 2, ''101001'')"
    by (simp add: sh py_slice_def numeral_2_eq_2)
  then show ?thesis using v ev by simp
qed

section \<open>Replaying what the encoder wrote\<close>

lemma decode_moves_snoc:
  "decode_moves W gi s (ms @ [m]) =
     (case decode_moves W gi s ms of Inl e \<Rightarrow> Inl e | Inr s' \<Rightarrow> decode_move W gi s' m)"
  by (induction ms arbitrary: s) (auto split: sum.splits)

lemma decode_games_snoc:
  "decode_games W gi acc (gs @ [g]) =
     (case decode_games W gi acc gs of
        Inl e \<Rightarrow> Inl e
      | Inr bits \<Rightarrow> decode_games W (gi + length gs) bits [g])"
  by (induction gs arbitrary: gi acc) (auto split: sum.splits option.splits)

lemma game_headers_of_no_key:
  assumes "key \<noteq> ''Round''" and "\<forall>ch. custom = Some ch \<longrightarrow> key \<notin> fst ` set ch"
  shows "\<forall>ch. game_headers_of custom n = Some ch \<longrightarrow> key \<notin> fst ` set ch"
  using assms
  by (auto simp: game_headers_of_def Let_def dom_update split: if_splits)

lemma create_game_record_no_expiry:
  assumes "\<forall>ch. gh = Some ch \<longrightarrow> ''ExpiryTime'' \<notin> fst ` set ch"
  shows "map_of (headers (create_game_record board seed None gh)) ''ExpiryTime'' = None"
proof -
  let ?dh = "case gh of None \<Rightarrow> default_headers
     | Some ch \<Rightarrow> fold (\<lambda>(key, v) d. if v \<noteq> [] then AList.update key v d else d) ch default_headers"
  have d: "''ExpiryTime'' \<notin> fst ` set default_headers" by (simp add: default_headers_def)
  have "''ExpiryTime'' \<notin> fst ` set ?dh"
  proof (cases gh)
    case None
    then show ?thesis using d by simp
  next
    case (Some ch)
    with assms have "''ExpiryTime'' \<notin> fst ` set ch" by simp
    then show ?thesis using keys_fold_custom [OF d] Some by simp
  qed
  then have "map_of (fold (\<lambda>(k, v) h. AList.update k v h) ?dh
        (AList.update ''Seed'' (py_str seed) default_headers)) ''ExpiryTime'' = None"
    by (simp add: map_of_fold_update_other update_conv' default_headers_def)
  then show ?thesis
    by (simp add: create_game_record_def Let_def)
qed

text \<open>Replaying a record the encoder wrote.\<close>

lemma decode_games_record:
  assumes "\<forall>ch. custom = Some ch \<longrightarrow> ''Seed'' \<notin> fst ` set ch"
  shows "decode_games W gi bits [create_game_record board seed e (game_headers_of custom n)] =
     (case decode_moves W gi ([], Random W seed, bits) board of
        Inl err \<Rightarrow> Inl err | Inr s \<Rightarrow> Inr (snd (snd s)))"
proof -
  have "\<forall>ch. game_headers_of custom n = Some ch \<longrightarrow> ''Seed'' \<notin> fst ` set ch"
    using assms by (rule game_headers_of_no_seed)
  then have "seed_header (create_game_record board seed e (game_headers_of custom n)) = py_str seed"
    by (rule create_game_record_seed)
  moreover have "mainline_moves (create_game_record board seed e (game_headers_of custom n)) = board"
    by (simp add: create_game_record_def Let_def)
  ultimately show ?thesis by (simp add: py_int_py_str split: sum.splits)
qed

lemma in_step_initial: "in_step W cb (initial_state W seeds)"
  by (simp add: in_step_def initial_state_def)

lemma in_step_new_game:
  assumes "\<forall>ch. custom = Some ch \<longrightarrow> ''Seed'' \<notin> fst ` set ch" and "in_step W cb st"
  shows "in_step W cb (new_game W seeds (append_record e custom st))"
proof -
  from assms(2) obtain pre where
    1: "decode_games W 0 [] (output_pgns st) = Inr pre"
    and 2: "decode_moves W (length (output_pgns st)) ([], Random W (base_seed st), pre)
             (chess_board st)
           = Inr (chess_board st, move_random st, take (file_bit_index st) cb)"
    by (auto simp: in_step_def)
  let ?rec = "create_game_record (chess_board st) (base_seed st) e
             (game_headers_of custom (game_number st))"
  have r: "decode_games W (length (output_pgns st)) pre [?rec]
      = Inr (take (file_bit_index st) cb)"
    unfolding decode_games_record [OF assms(1)] using 2 by simp
  have "decode_games W 0 [] (output_pgns st @ [?rec])
      = decode_games W (0 + length (output_pgns st)) pre [?rec]"
    unfolding decode_games_snoc 1 by simp
  then have "decode_games W 0 [] (output_pgns st @ [?rec]) = Inr (take (file_bit_index st) cb)"
    using r by simp
  then show ?thesis
    by (simp add: in_step_def new_game_def append_record_def)
qed

lemma in_step_forced_step:
  assumes "\<forall>ch. custom = Some ch \<longrightarrow> ''Seed'' \<notin> fst ` set ch" and "in_step W cb st"
    and "length (legal_moves W (chess_board st)) \<le> 1"
  shows "in_step W cb (forced_step W seeds e custom (legal_moves W (chess_board st)) st)"
proof -
  let ?lm = "legal_moves W (chess_board st)"
  let ?st1 = "if ?lm \<noteq> [] then st\<lparr>chess_board := chess_board st @ [?lm ! 0]\<rparr> else st"
  have 1: "in_step W cb ?st1"
  proof (cases "?lm = []")
    case True
    then show ?thesis using assms(2) by simp
  next
    case False
    from assms(2) obtain pre where
      a: "decode_games W 0 [] (output_pgns st) = Inr pre"
      and b: "decode_moves W (length (output_pgns st)) ([], Random W (base_seed st), pre)
             (chess_board st)
           = Inr (chess_board st, move_random st, take (file_bit_index st) cb)"
      by (auto simp: in_step_def)
    have "decode_moves W (length (output_pgns st)) ([], Random W (base_seed st), pre)
             (chess_board st @ [?lm ! 0])
           = Inr (chess_board st @ [?lm ! 0], move_random st, take (file_bit_index st) cb)"
      using b assms(3) by (simp add: decode_moves_snoc decode_move_def Let_def)
    then show ?thesis using False a by (auto simp: in_step_def)
  qed
  show ?thesis
  proof (cases "length ?lm = 0 \<or> is_game_over W (chess_board ?st1)")
    case True
    then have "forced_step W seeds e custom ?lm st = new_game W seeds (append_record e custom ?st1)"
      unfolding forced_step_def Let_def by (rule if_P)
    then show ?thesis using in_step_new_game [OF assms(1) 1] by (simp only:)
  next
    case False
    then have "forced_step W seeds e custom ?lm st = ?st1"
      unfolding forced_step_def Let_def by (rule if_not_P)
    then show ?thesis using 1 by (simp only:)
  qed
qed

text \<open>A move chosen from a slice of full width is read back as that slice.\<close>

lemma in_step_push_chosen:
  assumes ok: "collaborators_ok W" and inv: "in_step W cb st"
    and bin: "binary cb" and lt: "file_bit_index st < length cb"
    and two: "2 \<le> length (legal_moves W (chess_board st))"
    and full: "max_bits_at W st \<le> length cb - file_bit_index st"
    and v: "int_base2 (bits_at W cb st) = Some idx"
  shows "in_step W cb (push_chosen (shuffled_at W st ! idx) (advanced_at W st)
            (bits_to_encode_at W cb st) (bits_at W cb st) st)"
proof -
  let ?lm = "legal_moves W (chess_board st)"
  let ?i = "file_bit_index st"
  let ?mb = "floor_log2 (length ?lm)"
  let ?bits = "py_slice cb ?i (?i + ?mb)"
  let ?sh = "fst (shuffle W (move_random st) ?lm)"
  have k: "bits_to_encode_at W cb st = ?mb"
    using full by (simp add: bits_to_encode_at_def max_bits_at_def)
  have bits: "bits_at W cb st = ?bits" by (simp add: bits_at_def k)
  from ok have len: "length ?sh = length ?lm" and dist: "distinct (map (uci W) ?sh)"
    by (simp_all add: collaborators_ok_def)
  from move_index_bound [OF bin lt two] v full have b: "idx < length ?lm"
    by (simp add: bits max_bits_at_def min_def)
  have bl: "length ?bits = ?mb" using full by (simp add: py_slice_def max_bits_at_def)
  have ne: "?bits \<noteq> []" using bl floor_log2_pos [OF two] by auto
  from v ne have bv: "bin_val 0 ?bits = Some idx" by (simp add: int_base2_def bits)
  from format_b_bin_val [OF ne bv] bl have fmt: "format_b ?mb idx = ?bits" by simp
  from inv obtain pre where
    a: "decode_games W 0 [] (output_pgns st) = Inr pre"
    and d: "decode_moves W (length (output_pgns st)) ([], Random W (base_seed st), pre)
             (chess_board st)
           = Inr (chess_board st, move_random st, take ?i cb)"
    by (auto simp: in_step_def)
  have "take ?i cb @ ?bits = take (?i + ?mb) cb"
    by (simp add: py_slice_def take_add)
  then have "decode_moves W (length (output_pgns st)) ([], Random W (base_seed st), pre)
             (chess_board st @ [?sh ! idx])
           = Inr (chess_board st @ [?sh ! idx], snd (shuffle W (move_random st) ?lm),
                  take (?i + ?mb) cb)"
    using d decode_move_chosen [OF two len dist b, of "length (output_pgns st)" "take ?i cb"] fmt
    by (simp add: decode_moves_snoc)
  then show ?thesis using a
    by (auto simp: in_step_def push_chosen_def k shuffled_at_def advanced_at_def)
qed

lemma encode_iter_choice_at:
  assumes "binary cb" and "file_bit_index st < length cb"
    and "2 \<le> length (legal_moves W (chess_board st))"
    and "length (shuffled_at W st) = length (legal_moves W (chess_board st))"
  shows "\<exists>idx. int_base2 (bits_at W cb st) = Some idx
    \<and> encode_iter W seeds cb e c st =
        Inr (end_game_check W seeds cb e c
               (push_chosen (shuffled_at W st ! idx) (advanced_at W st)
                  (bits_to_encode_at W cb st) (bits_at W cb st) st))"
  using encode_iter_choice [OF assms(1,2,3), of seeds e c] assms(4)
  unfolding max_bits_at_def bits_to_encode_at_def bits_at_def shuffled_at_def advanced_at_def
  by auto

lemma end_game_check_in_step:
  assumes "\<forall>ch. custom = Some ch \<longrightarrow> ''Seed'' \<notin> fst ` set ch" and "in_step W cb st"
    and "file_bit_index st < length cb"
  shows "in_step W cb (end_game_check W seeds cb e custom st)"
proof (cases "should_end_game W (chess_board st)")
  case True
  have "file_bit_index (append_record e custom st) < length cb"
    using assms(3) by (simp add: append_record_def)
  then have "end_game_check W seeds cb e custom st = new_game W seeds (append_record e custom st)"
    using True by (simp add: end_game_check_def Let_def)
  then show ?thesis using in_step_new_game [OF assms(1,2)] by simp
next
  case False
  then show ?thesis using assms(2) by (simp add: end_game_check_def)
qed

lemma replay_inv_step:
  assumes ok: "collaborators_ok W"
    and cust: "\<forall>ch. custom = Some ch \<longrightarrow> ''Seed'' \<notin> fst ` set ch"
    and bin: "binary cb"
    and inv: "replay_inv W seeds cb e custom st"
    and lt: "file_bit_index st < length cb"
    and it: "encode_iter W seeds cb e custom st = Inr st'"
  shows "replay_inv W seeds cb e custom st'"
proof -
  from inv lt have ci: "cursor_inv cb st" and ins: "in_step W cb st"
    by (simp_all add: replay_inv_def)
  from encode_iter_cursor [OF ci bin lt it]
  have ci': "cursor_inv cb st'"
    and mv: "if 2 \<le> length (legal_moves W (chess_board st))
        then file_bit_index st' = file_bit_index st
                + min (floor_log2 (length (legal_moves W (chess_board st))))
                      (length cb - file_bit_index st)
        else file_bit_index st' = file_bit_index st"
    by (auto split: if_splits)
  show ?thesis
  proof (cases "2 \<le> length (legal_moves W (chess_board st))")
    case False
    then have f: "length (legal_moves W (chess_board st)) \<le> 1" by simp
    with it have st': "st' = forced_step W seeds e custom (legal_moves W (chess_board st)) st"
      by (simp add: encode_iter_forced)
    from mv False lt have "file_bit_index st' < length cb" by simp
    moreover have "in_step W cb st'"
      unfolding st' using in_step_forced_step [OF cust ins f] .
    ultimately show ?thesis using ci' by (simp add: replay_inv_def)
  next
    case True
    show ?thesis
    proof (cases "file_bit_index st' < length cb")
      case False
      with ci' have "file_bit_index st' = length cb" by (simp add: cursor_inv_def)
      then show ?thesis using ci' ins lt True it by (auto simp: replay_inv_def)
    next
      case less: True
      from ok have len: "length (shuffled_at W st) = length (legal_moves W (chess_board st))"
        by (simp add: collaborators_ok_def shuffled_at_def)
      from encode_iter_choice_at [OF bin lt True len, of seeds e custom] it obtain idx where
        v: "int_base2 (bits_at W cb st) = Some idx"
        and st': "st' = end_game_check W seeds cb e custom
               (push_chosen (shuffled_at W st ! idx) (advanced_at W st)
                  (bits_to_encode_at W cb st) (bits_at W cb st) st)"
        by auto
      from mv True less have full: "max_bits_at W st \<le> length cb - file_bit_index st"
        by (simp add: max_bits_at_def min_def split: if_splits)
      let ?st1 = "push_chosen (shuffled_at W st ! idx) (advanced_at W st)
                  (bits_to_encode_at W cb st) (bits_at W cb st) st"
      have 1: "in_step W cb ?st1"
        using in_step_push_chosen [OF ok ins bin lt True full v] .
      have "file_bit_index ?st1 = file_bit_index st'"
        unfolding st' by (simp add: end_game_check_cursor)
      with less have 2: "file_bit_index ?st1 < length cb" by simp
      have "in_step W cb st'"
        unfolding st' using end_game_check_in_step [OF cust 1 2] .
      then show ?thesis using ci' less by (simp add: replay_inv_def)
    qed
  qed
qed

lemma bin_val_zeros: "bin_val 0 (replicate k (CHR ''0'') @ s) = bin_val 0 s"
  by (induction k) simp_all

lemma bin_val_bin_str: "bin_val 0 (bin_str n) = Some n"
proof (induction n rule: bin_str.induct)
  case (1 n)
  show ?case
  proof (cases "n < 2")
    case True
    then have "n = 0 \<or> n = 1" by auto
    then show ?thesis by (subst bin_str.simps) (auto simp: bit_char_def)
  next
    case False
    then have e: "bin_str n = bin_str (n div 2) @ [bit_char (n mod 2)]"
      by (subst bin_str.simps) simp
    from 1 False have IH: "bin_val 0 (bin_str (n div 2)) = Some (n div 2)" by simp
    show ?thesis
    proof (cases "n mod 2 = 0")
      case True
      then have "2 * (n div 2) = n" by presburger
      then show ?thesis unfolding e bin_val_snoc IH using True by (simp add: bit_char_def)
    next
      case False
      then have "2 * (n div 2) + 1 = n" by presburger
      then show ?thesis unfolding e bin_val_snoc IH using False by (simp add: bit_char_def)
    qed
  qed
qed

lemma int_base2_format_b: "int_base2 (format_b w n) = Some n"
  using bin_str_nonempty [of n]
  by (simp add: int_base2_def format_b_def bin_val_zeros bin_val_bin_str)

lemma write_bytes_data_bits: "write_bytes (data_bits_of p) = Inr p"
proof (induction p)
  case Nil
  then show ?case by (subst write_bytes.simps) (simp add: data_bits_of_def)
next
  case (Cons b p)
  have d: "data_bits_of (b # p) = format_b 8 (unat b) @ data_bits_of p"
    by (simp add: data_bits_of_def)
  have l: "length (format_b 8 (unat b)) = 8"
    by (simp add: format_byte length_big_endian_bits)
  have ne: "format_b 8 (unat b) \<noteq> []" using l by auto
  show ?case
    unfolding d
    by (subst write_bytes.simps) (simp add: l ne int_base2_format_b Cons.IH)
qed

lemma parse_frame_complete_binary:
  assumes "p \<noteq> []"
  shows "parse_frame (complete_binary p) = Inr (data_bits_of p)"
proof -
  let ?cb = "complete_binary p"
  let ?n = "length p"
  have cb: "?cb = ''1010'' @ data_bits_of p @ ''0101''"
    by (simp add: complete_binary_def padding_needed_zero START_MARKER_def END_MARKER_def)
  have len: "length ?cb = 8 * ?n + 8" by (rule length_complete_binary)
  have ld: "length (data_bits_of p) = 8 * ?n" by (rule length_data_bits_of)
  have f: "first_occurrence START_MARKER ?cb 0"
    by (simp add: first_occurrence_def occurs_at_def START_MARKER_def cb)
  define pre where "pre = ''1010'' @ data_bits_of p"
  have lp: "length pre = 8 * ?n + 4" using ld by (simp add: pre_def)
  have cb': "?cb = pre @ ''0101''" by (simp add: cb pre_def)
  have "drop (length pre) (pre @ ''0101'') = ''0101''" by simp
  then have "drop (8 * ?n + 4) ?cb = ''0101''" by (simp only: lp cb')
  then have l: "last_occurrence END_MARKER ?cb (8 * ?n + 4)"
    using len by (auto simp: last_occurrence_def occurs_at_def END_MARKER_def)
  have lt: "0 + 4 < 8 * ?n + 4" using assms by (cases p) auto
  have d: "(8 * ?n + 4 - (0 + 4)) div 8 = ?n" by simp
  have n0: "?n \<noteq> 0" using assms by simp
  have "drop 4 ?cb = data_bits_of p @ ''0101''" by (simp add: cb)
  then have "take (8 * ?n) (drop 4 ?cb) = data_bits_of p"
    using ld by simp
  then show ?thesis
    using parse_frame_between [OF f l lt] n0 unfolding d by simp
qed

lemma check_expiry_record:
  assumes "\<forall>ch. custom = Some ch \<longrightarrow> ''ExpiryTime'' \<notin> fst ` set ch"
    and "\<forall>x. e = Some x \<longrightarrow> now' \<le> x"
  shows "check_expiry now' (create_game_record board seed e (game_headers_of custom n)) out
     = (Inr (), out)"
proof (cases e)
  case None
  have "\<forall>ch. game_headers_of custom n = Some ch \<longrightarrow> ''ExpiryTime'' \<notin> fst ` set ch"
    using assms(1) by (intro game_headers_of_no_key) simp_all
  then have "map_of (headers (create_game_record board seed None (game_headers_of custom n)))
      ''ExpiryTime'' = None"
    by (rule create_game_record_no_expiry)
  then show ?thesis using None by (simp add: check_expiry_def)
next
  case (Some x)
  with assms(2) have "now' \<le> x" by simp
  then show ?thesis
    using Some by (simp add: check_expiry_def create_game_record_expiry py_int_py_str)
qed

section \<open>Round trip\<close>

text \<open>
  The round trip where it holds. If the last slice taken by the encoder has the full width
  of its position and the last move does not end its game, then decoding the games written
  for a payload gives the payload back (custom headers not naming \<open>Seed\<close> or
  \<open>ExpiryTime\<close>, and the games not yet expired at decoding time).
\<close>

proposition roundtrip_when_aligned:
  assumes ok: "collaborators_ok W"
    and cust: "\<forall>ch. custom = Some ch \<longrightarrow>
        ''Seed'' \<notin> fst ` set ch \<and> ''ExpiryTime'' \<notin> fst ` set ch"
    and time: "\<forall>x. expiry_of now timer = Some x \<longrightarrow> now' \<le> x"
    and run: "encode_state W seeds now fuel (Some payload) timer custom = Some (Inr st)"
    and full: "length (last (consumed st))
        = floor_log2 (length (legal_moves W (butlast (chess_board st))))"
    and opn: "\<not> should_end_game W (chess_board st)"
  shows "decode W now' (Parsed (output_pgns st)) out = (Inr (), Some payload)"
proof -
  let ?cb = "complete_binary payload"
  let ?e = "expiry_of now timer"
  from cust have seedk: "\<forall>ch. custom = Some ch \<longrightarrow> ''Seed'' \<notin> fst ` set ch"
    and expk: "\<forall>ch. custom = Some ch \<longrightarrow> ''ExpiryTime'' \<notin> fst ` set ch" by auto
  from run have ne: "payload \<noteq> []"
    by (auto simp: encode_state_def read_input_file_def split: if_splits)
  from run obtain st1 where
    loop: "encode_loop W seeds ?cb ?e custom fuel (initial_state W seeds) = Some (Inr st1)"
    and st: "st = save_final_game ?e custom st1"
    by (auto simp: encode_state_def read_input_file_def Let_def
        split: if_splits option.splits sum.splits)
  have bin: "binary ?cb" by (rule binary_complete_binary)
  have len: "length ?cb = 8 * length payload + 8" by (rule length_complete_binary)
  have init: "replay_inv W seeds ?cb ?e custom (initial_state W seeds)"
    using len in_step_initial [of W ?cb seeds]
    by (simp add: replay_inv_def cursor_inv_def initial_state_def)
  have "replay_inv W seeds ?cb ?e custom st1 \<and> length ?cb \<le> file_bit_index st1"
  proof (rule encode_loop_invariant
      [where I = "replay_inv W seeds ?cb ?e custom", OF _ init loop])
    fix s s' assume "replay_inv W seeds ?cb ?e custom s" "file_bit_index s < length ?cb"
      "encode_iter W seeds ?cb ?e custom s = Inr s'"
    then show "replay_inv W seeds ?cb ?e custom s'"
      using replay_inv_step [OF ok seedk bin] by blast
  qed
  then have at_end: "file_bit_index st1 = length ?cb"
    and "\<exists>st0. in_step W ?cb st0 \<and> file_bit_index st0 < length ?cb
              \<and> 2 \<le> length (legal_moves W (chess_board st0))
              \<and> encode_iter W seeds ?cb ?e custom st0 = Inr st1"
    by (auto simp: replay_inv_def cursor_inv_def)
  then obtain st0 where ins0: "in_step W ?cb st0" and lt0: "file_bit_index st0 < length ?cb"
    and two0: "2 \<le> length (legal_moves W (chess_board st0))"
    and it0: "encode_iter W seeds ?cb ?e custom st0 = Inr st1" by blast
  from ok have len0: "length (shuffled_at W st0) = length (legal_moves W (chess_board st0))"
    by (simp add: collaborators_ok_def shuffled_at_def)
  from encode_iter_choice_at [OF bin lt0 two0 len0, of seeds ?e custom] it0 obtain idx where
    v: "int_base2 (bits_at W ?cb st0) = Some idx"
    and st1: "st1 = end_game_check W seeds ?cb ?e custom
               (push_chosen (shuffled_at W st0 ! idx) (advanced_at W st0)
                  (bits_to_encode_at W ?cb st0) (bits_at W ?cb st0) st0)"
    by auto
  let ?p = "push_chosen (shuffled_at W st0 ! idx) (advanced_at W st0)
                  (bits_to_encode_at W ?cb st0) (bits_at W ?cb st0) st0"
  have same: "chess_board st = chess_board st1" "consumed st = consumed st1"
    unfolding st by (simp_all add: save_final_game_def append_record_def)
  have pi: "file_bit_index ?p = length ?cb"
    using at_end unfolding st1 by (simp add: end_game_check_cursor)
  have noend: "\<not> should_end_game W (chess_board ?p)"
  proof
    assume "should_end_game W (chess_board ?p)"
    then have "st1 = append_record ?e custom ?p"
      unfolding st1 using pi by (simp add: end_game_check_def Let_def append_record_def)
    then have "chess_board st1 = chess_board ?p" by (simp add: append_record_def)
    with \<open>should_end_game W (chess_board ?p)\<close> opn same show False by simp
  qed
  then have st1p: "st1 = ?p" unfolding st1 by (simp add: end_game_check_def)
  have board: "chess_board st = chess_board st0 @ [shuffled_at W st0 ! idx]"
    and cons: "consumed st = consumed st0 @ [bits_at W ?cb st0]"
    using same st1p by (simp_all add: push_chosen_def)
  have bl: "length (bits_at W ?cb st0) = bits_to_encode_at W ?cb st0"
    using lt0 by (simp add: bits_at_def bits_to_encode_at_def py_slice_def)
  from full have "bits_to_encode_at W ?cb st0 = max_bits_at W st0"
    unfolding board cons by (simp add: bl max_bits_at_def)
  then have fullw: "max_bits_at W st0 \<le> length ?cb - file_bit_index st0"
    by (simp add: bits_to_encode_at_def min_def split: if_splits)
  have insp: "in_step W ?cb ?p"
    using in_step_push_chosen [OF ok ins0 bin lt0 two0 fullw v] .
  have bne: "chess_board st1 \<noteq> []" using st1p by (simp add: push_chosen_def)
  then have out: "output_pgns st = output_pgns (new_game W seeds (append_record ?e custom ?p))"
    unfolding st using st1p by (simp add: save_final_game_def new_game_def append_record_def)
  from in_step_new_game [OF seedk insp, of seeds ?e]
  have "decode_games W 0 [] (output_pgns (new_game W seeds (append_record ?e custom ?p)))
      = Inr ?cb"
    using pi by (auto simp: in_step_def new_game_def append_record_def)
  then have bits: "decode_games W 0 [] (output_pgns st) = Inr ?cb"
    by (simp only: out)
  have P: "\<forall>g \<in> set (output_pgns st). check_expiry now' g out = (Inr (), out)"
  proof (rule encode_state_records
      [where P = "\<lambda>g. check_expiry now' g out = (Inr (), out)" and custom = custom, OF _ run])
    show "check_expiry now' (create_game_record board seed ?e (game_headers_of custom n)) out
        = (Inr (), out)" for board :: "'a list" and seed n
      using check_expiry_record [OF expk time] .
  qed
  have gne: "output_pgns st \<noteq> []"
    unfolding out by (simp add: new_game_def append_record_def)
  then obtain g0 gs where gs: "output_pgns st = g0 # gs" by (cases "output_pgns st") auto
  with P have ce: "check_expiry now' g0 out = (Inr (), out)" by simp
  have after: "decode_after_expiry W (output_pgns st) = (Inr (), Some payload)"
    using bits ne
    by (simp add: decode_after_expiry_def parse_frame_complete_binary write_bytes_data_bits)
  show ?thesis
    using after ce unfolding gs by (simp add: decode_def decode_body_def)
qed

text \<open>An instance: two bytes, two games, in \<open>short_game_world\<close>.\<close>

lemma collaborators_ok_short: "collaborators_ok short_game_world"
proof -
  have d: "distinct (map str_nat [0, 1, 2, 3, 4, 5, 6, 7, 8, 9, 10, 11, 12, 13, 14, 15])"
    by code_simp
  have "distinct (map str_nat (rotate r [0, 1, 2, 3, 4, 5, 6, 7, 8, 9, 10, 11, 12, 13, 14, 15]))"
    for r
    unfolding rotate_map [symmetric] using d by (simp only: distinct_rotate)
  then show ?thesis
    by (simp add: collaborators_ok_def short_game_world_def rotate_shuffle_def)
qed

lemma roundtrip_when_aligned_witness:
  "\<exists>st. encode_state short_game_world (\<lambda>i. int i + 1) 1000 20 (Some [0x41, 0x42]) (Some 60) None
          = Some (Inr st)
     \<and> length (output_pgns st) = 2
     \<and> decode short_game_world 1060 (Parsed (output_pgns st)) None = (Inr (), Some [0x41, 0x42])"
proof -
  let ?st = "\<lparr>output_pgns =
          [\<lparr>headers =
              [(''Event'', ''?''), (''Site'', ''?''),
               (''Date'', ''????.??.??''), (''Round'', ''?''),
               (''White'', ''?''), (''Black'', ''?''), (''Result'', ''*''),
               (''Seed'', ''1''), (''ExpiryTime'', ''1060'')],
              mainline_moves = [11, 6, 4, 8]\<rparr>,
           \<lparr>headers =
              [(''Event'', ''?''), (''Site'', ''?''),
               (''Date'', ''????.??.??''), (''Round'', ''2''),
               (''White'', ''?''), (''Black'', ''?''), (''Result'', ''*''),
               (''Seed'', ''2''), (''ExpiryTime'', ''1060'')],
              mainline_moves = [4, 8]\<rparr>],
          file_bit_index = 24, chess_board = [4, 8], base_seed = 2,
          move_random = 4 :: nat, game_number = 2, seeds_drawn = 2,
          consumed = [''1010'', ''0100'', ''0001'', ''0100'', ''0010'', ''0101'']\<rparr>
          :: (nat, nat) enc_state"
  have ev: "encode_state short_game_world (\<lambda>i. int i + 1) 1000 20 (Some [0x41, 0x42]) (Some 60)
      None = Some (Inr ?st)"
    by code_simp
  have cust: "\<forall>ch. (None :: (string \<times> string) list option) = Some ch \<longrightarrow>
        ''Seed'' \<notin> fst ` set ch \<and> ''ExpiryTime'' \<notin> fst ` set ch" by simp
  have time: "\<forall>x. expiry_of 1000 (Some 60) = Some x \<longrightarrow> 1060 \<le> x"
    by (simp add: expiry_of_def)
  have full: "length (last (consumed ?st))
        = floor_log2 (length (legal_moves short_game_world (butlast (chess_board ?st))))"
    by code_simp
  have opn: "\<not> should_end_game short_game_world (chess_board ?st)"
    by code_simp
  from roundtrip_when_aligned [OF collaborators_ok_short cust time ev full opn, of None]
  show ?thesis using ev by (intro exI [of _ ?st]) simp
qed

text \<open>The codec run on the one-byte payload 00 in \<open>short_game_world\<close>.\<close>

lemma short_encode_zero:
  "encode short_game_world (\<lambda>i. int i + 1) 0 20 (Some [0x00]) None None None =
     Some (Inr (), Some [\<lparr>headers = default_headers @ [(''Seed'', ''1'')],
                          mainline_moves = [11, 2, 3, 9]\<rparr>,
                        \<lparr>headers = default_headers @ [(''Seed'', ''1'')],
                          mainline_moves = [11, 2, 3, 9]\<rparr>])"
  by code_simp

lemma short_decode_zero:
  "decode short_game_world 0
     (Parsed [\<lparr>headers = default_headers @ [(''Seed'', ''1'')], mainline_moves = [11, 2, 3, 9]\<rparr>,
              \<lparr>headers = default_headers @ [(''Seed'', ''1'')], mainline_moves = [11, 2, 3, 9]\<rparr>])
     None
     = (Inr (), Some [0x00, 0x5A, 0x00])"
  by code_simp

text \<open>
  Claim C1 asks that decoding the games written for a payload gives the payload back. The
  code does not do so in two situations. When the last slice taken by the encoder is shorter
  than the width of its position, the decoder writes it with zeros filled in, which can
  break the end marker: for the payload 00 in \<open>octal_world\<close> decoding fails. When
  the move that takes the last bits also ends its game, the game is written twice (once at
  line 151, once at line 172): for the payload 00 in \<open>short_game_world\<close> decoding
  returns three bytes.
\<close>

theorem roundtrip_broken:
  "(\<exists>gs. encode octal_world (\<lambda>i. 1) 0 20 (Some [0x00]) None None None = Some (Inr (), Some gs)
        \<and> decode octal_world 0 (Parsed gs) None = (Inl (DecodingFailed EndMarkerNotFound), None))
   \<and> (\<exists>gs. encode short_game_world (\<lambda>i. int i + 1) 0 20 (Some [0x00]) None None None
              = Some (Inr (), Some gs)
        \<and> decode short_game_world 0 (Parsed gs) None = (Inr (), Some [0x00, 0x5A, 0x00]))"
  using octal_encode_zero octal_decode_zero short_encode_zero short_decode_zero by simp

end
